theory Spec2Isabelle
  imports Main "HOL-Library.Char_ord" "HOL-Library.List_Lexorder"
begin

section \<open>jsonpp: the value model of \<^verbatim>\<open>jsonpp.hpp\<close>\<close>

subsection \<open>Outcomes\<close>

text \<open>
  A call of the library either returns, or throws (the only exception the header can
  raise is \<^verbatim>\<open>std::out_of_range\<close>, from \<^verbatim>\<open>std::string::erase\<close>), or has
  undefined behaviour (a null or dangling pointer is dereferenced, a vector is indexed
  past its end). The last two are the errors of the model. The virtual calls
  \<^verbatim>\<open>to_string\<close> and \<^verbatim>\<open>clone\<close> recurse through pointers and need not return on
  a cyclic structure: they take fuel (the depth of virtual calls allowed), and \<open>None\<close>
  is the call that has not returned within it.
\<close>

datatype error = out_of_range | undefined_behaviour

type_synonym 'a result = "(error + 'a) option"

subsection \<open>\<^verbatim>\<open>std::string\<close>\<close>

text \<open>
  A \<^verbatim>\<open>std::string\<close> is a sequence of bytes, NUL included; \<^verbatim>\<open>char\<close> is
  \<^typ>\<open>char\<close>. The characters the source names:
\<close>

abbreviation NUL :: char where "NUL \<equiv> CHR 0x00"
abbreviation backspace :: char where "backspace \<equiv> CHR 0x08"
abbreviation horizontal_tab :: char where "horizontal_tab \<equiv> CHR 0x09"
abbreviation newline :: char where "newline \<equiv> CHR 0x0A"
abbreviation form_feed :: char where "form_feed \<equiv> CHR 0x0C"
abbreviation carriage_return :: char where "carriage_return \<equiv> CHR 0x0D"
abbreviation double_quote :: char where "double_quote \<equiv> CHR 0x22"
abbreviation slash :: char where "slash \<equiv> CHR 0x2F"
abbreviation backslash :: char where "backslash \<equiv> CHR 0x5C"

text \<open>
  \<^verbatim>\<open>out.append(ca)\<close> with \<^verbatim>\<open>char ca[4]\<close> is \<^verbatim>\<open>append(const char*)\<close>: it appends
  the bytes of the buffer up to, and without, the first NUL.
\<close>

definition c_str :: "char list \<Rightarrow> string" where
  "c_str ca = takeWhile (\<lambda>c. c \<noteq> NUL) ca"

text \<open>
  \<^verbatim>\<open>size() - 2\<close> is a subtraction of \<^verbatim>\<open>size_t\<close> (64 bits): below zero it wraps
  around. Sizes are below \<open>2 ^ 64\<close>.
\<close>

definition size_t_minus :: "nat \<Rightarrow> nat \<Rightarrow> nat" where
  "size_t_minus a b = (if b \<le> a then a - b else a + 2 ^ 64 - b)"

text \<open>
  \<^verbatim>\<open>s.erase(index)\<close> removes everything from \<open>index\<close> on, and throws
  \<^verbatim>\<open>std::out_of_range\<close> when \<open>index > s.size()\<close>.
\<close>

definition string_erase :: "string \<Rightarrow> nat \<Rightarrow> error + string" where
  "string_erase s index =
     (if index > length s then Inl out_of_range else Inr (take index s))"

subsection \<open>\<^verbatim>\<open>escape_str\<close>\<close>

text \<open>
  The body of the loop of \<^verbatim>\<open>escape_str\<close>: the buffer \<^verbatim>\<open>char ca[4] = {}\<close> after the
  \<^verbatim>\<open>switch\<close>.
\<close>

definition escape_buffer :: "char \<Rightarrow> char list" where
  "escape_buffer c =
     (let ca = [NUL, NUL, NUL, NUL] in
      if c = double_quote \<or> c = backslash \<or> c = slash then ca[0 := backslash, 1 := c]
      else if c = backspace then ca[0 := backslash, 1 := CHR ''b'']
      else if c = form_feed then ca[0 := backslash, 1 := CHR ''f'']
      else if c = newline then ca[0 := backslash, 1 := CHR ''n'']
      else if c = carriage_return then ca[0 := backslash, 1 := CHR ''r'']
      else if c = horizontal_tab then ca[0 := backslash, 1 := CHR ''t'']
      else ca[0 := c])"

fun escape_loop :: "string \<Rightarrow> string \<Rightarrow> string" where
  "escape_loop out [] = out"
| "escape_loop out (c # str) = escape_loop (out @ c_str (escape_buffer c)) str"

definition escape_str :: "string \<Rightarrow> string" where
  "escape_str str = escape_loop [] str"

text \<open>\<^verbatim>\<open>JSONString::to_string\<close>, on the member \<^verbatim>\<open>value\<close>.\<close>

definition JSONString_to_string :: "string \<Rightarrow> string" where
  "JSONString_to_string val = ([double_quote] @ escape_str val) @ [double_quote]"

subsection \<open>Values and the heap\<close>

text \<open>
  Containers hold \<^verbatim>\<open>JSONValue*\<close>: the values live on the heap, and a pointer is null
  or an address. A heap is the list of its cells, the address is the index, and
  \<^verbatim>\<open>new\<close> takes the next one. A cell holds the members of the object:
  \<^verbatim>\<open>JSONBooleanType::value\<close>, \<^verbatim>\<open>JSONString::value\<close>,
  \<^verbatim>\<open>JSONArray::values\<close> (a \<^verbatim>\<open>std::vector<JSONValue*>\<close>) and
  \<^verbatim>\<open>JSONObject::values\<close> (a \<^verbatim>\<open>std::map<JSONString, JSONValue*>\<close>, given by its
  entries in iteration order, the key by its member \<^verbatim>\<open>value\<close>).
\<close>

type_synonym addr = nat

datatype ptr = nullptr | Ptr addr

datatype JSONValue =
    JSONNullType
  | JSONBooleanType bool
  | JSONArray "ptr list"
  | JSONString string
  | JSONObject "(string \<times> ptr) list"

type_synonym heap = "JSONValue list"

definition deref :: "heap \<Rightarrow> ptr \<Rightarrow> error + JSONValue" where
  "deref h p =
     (case p of
        nullptr \<Rightarrow> Inl undefined_behaviour
      | Ptr a \<Rightarrow> if a < length h then Inr (h ! a) else Inl undefined_behaviour)"

definition new :: "heap \<Rightarrow> JSONValue \<Rightarrow> addr \<times> heap" where
  "new h v = (length h, h @ [v])"

subsection \<open>\<^verbatim>\<open>to_string\<close>\<close>

text \<open>
  The loops of \<^verbatim>\<open>JSONArray::to_string\<close> and \<^verbatim>\<open>JSONObject::to_string\<close>, over the
  virtual call \<^verbatim>\<open>val->to_string()\<close>; an exception of the call leaves the loop.
\<close>

fun JSONArray_to_string_loop ::
  "(ptr \<Rightarrow> string result) \<Rightarrow> string \<Rightarrow> ptr list \<Rightarrow> string result" where
  "JSONArray_to_string_loop val_to_string out [] = Some (Inr out)"
| "JSONArray_to_string_loop val_to_string out (val # values) =
     (case val_to_string val of
        None \<Rightarrow> None
      | Some (Inl e) \<Rightarrow> Some (Inl e)
      | Some (Inr s) \<Rightarrow> JSONArray_to_string_loop val_to_string ((out @ s) @ '', '') values)"

fun JSONObject_to_string_loop ::
  "(ptr \<Rightarrow> string result) \<Rightarrow> string \<Rightarrow> (string \<times> ptr) list \<Rightarrow> string result" where
  "JSONObject_to_string_loop val_to_string out [] = Some (Inr out)"
| "JSONObject_to_string_loop val_to_string out (pa # values) =
     (case val_to_string (snd pa) of
        None \<Rightarrow> None
      | Some (Inl e) \<Rightarrow> Some (Inl e)
      | Some (Inr s) \<Rightarrow>
          JSONObject_to_string_loop val_to_string
            ((out @ JSONString_to_string (fst pa)) @ s) values)"

text \<open>\<^verbatim>\<open>out.erase(out.size() - 2); out.append(closing); return out;\<close>\<close>

definition erase_append :: "string \<Rightarrow> string \<Rightarrow> string result" where
  "erase_append out closing =
     (case string_erase out (size_t_minus (length out) 2) of
        Inl e \<Rightarrow> Some (Inl e)
      | Inr out' \<Rightarrow> Some (Inr (out' @ closing)))"

fun to_string :: "nat \<Rightarrow> heap \<Rightarrow> ptr \<Rightarrow> string result" where
  "to_string 0 h p = None"
| "to_string (Suc n) h p =
     (case deref h p of
        Inl e \<Rightarrow> Some (Inl e)
      | Inr JSONNullType \<Rightarrow> Some (Inr ''null'')
      | Inr (JSONBooleanType val) \<Rightarrow> Some (Inr (if val then ''true'' else ''false''))
      | Inr (JSONArray values) \<Rightarrow>
          (case JSONArray_to_string_loop (to_string n h) ''['' values of
             None \<Rightarrow> None
           | Some (Inl e) \<Rightarrow> Some (Inl e)
           | Some (Inr out) \<Rightarrow> erase_append out '']'')
      | Inr (JSONString val) \<Rightarrow> Some (Inr (JSONString_to_string val))
      | Inr (JSONObject values) \<Rightarrow>
          (case JSONObject_to_string_loop (to_string n h) ''{'' values of
             None \<Rightarrow> None
           | Some (Inl e) \<Rightarrow> Some (Inl e)
           | Some (Inr out) \<Rightarrow> erase_append out ''}''))"

subsection \<open>\<^verbatim>\<open>JSONArray\<close>: indexed access\<close>

text \<open>
  \<^verbatim>\<open>operator[](size_t index)\<close> returns \<^verbatim>\<open>values[index]\<close>, a reference to the slot:
  \<^verbatim>\<open>std::vector::operator[]\<close> checks no bound, and an index past the end is
  undefined behaviour. \<open>JSONArray_subscript\<close> reads through the reference,
  \<open>JSONArray_store\<close> writes through it (\<^verbatim>\<open>a[index] = p\<close>).
\<close>

definition JSONArray_size :: "heap \<Rightarrow> addr \<Rightarrow> error + nat" where
  "JSONArray_size h this =
     (case deref h (Ptr this) of
        Inr (JSONArray values) \<Rightarrow> Inr (length values)
      | _ \<Rightarrow> Inl undefined_behaviour)"

definition JSONArray_subscript :: "heap \<Rightarrow> addr \<Rightarrow> nat \<Rightarrow> error + ptr" where
  "JSONArray_subscript h this index =
     (case deref h (Ptr this) of
        Inr (JSONArray values) \<Rightarrow>
          if index < length values then Inr (values ! index) else Inl undefined_behaviour
      | _ \<Rightarrow> Inl undefined_behaviour)"

definition JSONArray_store :: "heap \<Rightarrow> addr \<Rightarrow> nat \<Rightarrow> ptr \<Rightarrow> error + heap" where
  "JSONArray_store h this index p =
     (case deref h (Ptr this) of
        Inr (JSONArray values) \<Rightarrow>
          if index < length values then Inr (h[this := JSONArray (values[index := p])])
          else Inl undefined_behaviour
      | _ \<Rightarrow> Inl undefined_behaviour)"

definition push_back :: "heap \<Rightarrow> addr \<Rightarrow> ptr \<Rightarrow> error + heap" where
  "push_back h this p =
     (case deref h (Ptr this) of
        Inr (JSONArray values) \<Rightarrow> Inr (h[this := JSONArray (values @ [p])])
      | _ \<Rightarrow> Inl undefined_behaviour)"

subsection \<open>\<^verbatim>\<open>std::map<JSONString, JSONValue*>\<close>\<close>

text \<open>
  Modelled from the spec: the order of the keys. The map compares keys with
  \<^verbatim>\<open>std::less<JSONString>\<close> only, and the source declares no \<^verbatim>\<open>operator<\<close> for
  \<^verbatim>\<open>JSONString\<close>: what it declares is the conversion \<^verbatim>\<open>operator std::string\<close>, which
  returns the member \<^verbatim>\<open>value\<close>. By the specification a String has "equality/ordering
  by raw value": two keys compare as these strings do, lexicographically and byte by
  byte, which is the order \<open><\<close> of \<^typ>\<open>string\<close>.
\<close>

abbreviation JSONString_less :: "string \<Rightarrow> string \<Rightarrow> bool" where
  "JSONString_less a b \<equiv> a < b"

text \<open>
  The map keeps its entries in ascending order of key and iterates in that order.
  \<^verbatim>\<open>values[key]\<close> (\<open>std_map_subscript\<close>) finds the entry of the key or inserts one
  with the value-initialised pointer, null, and returns a reference to the mapped
  pointer; \<open>std_map_store\<close> writes through that reference. \<open>std_map_insert\<close> is
  \<^verbatim>\<open>insert\<close>, which leaves an entry that is there alone, and \<open>std_map_range\<close> the
  constructor from a range, which inserts each element in turn.
\<close>

fun std_map_subscript ::
  "(string \<times> ptr) list \<Rightarrow> string \<Rightarrow> ptr \<times> (string \<times> ptr) list" where
  "std_map_subscript [] key = (nullptr, [(key, nullptr)])"
| "std_map_subscript (pa # values) key =
     (if JSONString_less key (fst pa) then (nullptr, (key, nullptr) # pa # values)
      else if JSONString_less (fst pa) key then
        (case std_map_subscript values key of (p, values') \<Rightarrow> (p, pa # values'))
      else (snd pa, pa # values))"

fun std_map_store :: "(string \<times> ptr) list \<Rightarrow> string \<Rightarrow> ptr \<Rightarrow> (string \<times> ptr) list" where
  "std_map_store [] key p = []"
| "std_map_store (pa # values) key p =
     (if JSONString_less key (fst pa) \<or> JSONString_less (fst pa) key then pa # std_map_store values key p
      else (fst pa, p) # values)"

fun std_map_insert :: "(string \<times> ptr) list \<Rightarrow> string \<times> ptr \<Rightarrow> (string \<times> ptr) list" where
  "std_map_insert [] pb = [pb]"
| "std_map_insert (pa # values) pb =
     (if JSONString_less (fst pb) (fst pa) then pb # pa # values
      else if JSONString_less (fst pa) (fst pb) then pa # std_map_insert values pb
      else pa # values)"

definition std_map_range :: "(string \<times> ptr) list \<Rightarrow> (string \<times> ptr) list" where
  "std_map_range xs = foldl std_map_insert [] xs"

text \<open>
  \<^verbatim>\<open>std::find(first, last, value)\<close>: the position of the first element that compares
  equal to the value, or \<open>last\<close> (here the length) when there is none.
\<close>

fun std_find :: "('a \<Rightarrow> 'b \<Rightarrow> bool) \<Rightarrow> 'a list \<Rightarrow> 'b \<Rightarrow> nat" where
  "std_find eq [] val = 0"
| "std_find eq (x # xs) val = (if eq x val then 0 else Suc (std_find eq xs val))"

subsection \<open>\<^verbatim>\<open>JSONObject\<close>: keyed access\<close>

text \<open>
  \<^verbatim>\<open>operator[](std::string index)\<close> returns \<^verbatim>\<open>values[index]\<close>, the string converted
  to the key \<^verbatim>\<open>JSONString(index)\<close>, whose \<^verbatim>\<open>value\<close> is the string.
  \<open>JSONObject_subscript\<close> evaluates \<^verbatim>\<open>o[index]\<close> and reads through the reference;
  \<open>JSONObject_store\<close> is \<^verbatim>\<open>o[index] = p\<close>.
\<close>

definition JSONObject_size :: "heap \<Rightarrow> addr \<Rightarrow> error + nat" where
  "JSONObject_size h this =
     (case deref h (Ptr this) of
        Inr (JSONObject values) \<Rightarrow> Inr (length values)
      | _ \<Rightarrow> Inl undefined_behaviour)"

definition JSONObject_subscript :: "heap \<Rightarrow> addr \<Rightarrow> string \<Rightarrow> error + ptr \<times> heap" where
  "JSONObject_subscript h this index =
     (case deref h (Ptr this) of
        Inr (JSONObject values) \<Rightarrow>
          (case std_map_subscript values index of
             (p, values') \<Rightarrow> Inr (p, h[this := JSONObject values']))
      | _ \<Rightarrow> Inl undefined_behaviour)"

definition JSONObject_store :: "heap \<Rightarrow> addr \<Rightarrow> string \<Rightarrow> ptr \<Rightarrow> error + heap" where
  "JSONObject_store h this index p =
     (case deref h (Ptr this) of
        Inr (JSONObject values) \<Rightarrow>
          (case std_map_subscript values index of
             (_, values') \<Rightarrow> Inr (h[this := JSONObject (std_map_store values' index p)]))
      | _ \<Rightarrow> Inl undefined_behaviour)"

text \<open>
  Modelled from the spec: \<^verbatim>\<open>contains\<close> hands \<^verbatim>\<open>std::find\<close> the entries of the map
  and a \<^verbatim>\<open>std::string\<close>, and the source declares no \<^verbatim>\<open>operator==\<close> between the
  two. The spec has a "membership test by key" and String "equality by raw value": an
  entry equals the string when the \<^verbatim>\<open>value\<close> of its key does.
\<close>

definition entry_equals :: "string \<times> ptr \<Rightarrow> string \<Rightarrow> bool" where
  "entry_equals pa key = (fst pa = key)"

definition JSONObject_contains :: "heap \<Rightarrow> addr \<Rightarrow> string \<Rightarrow> error + bool" where
  "JSONObject_contains h this key =
     (case deref h (Ptr this) of
        Inr (JSONObject values) \<Rightarrow> Inr (std_find entry_equals values key \<noteq> length values)
      | _ \<Rightarrow> Inl undefined_behaviour)"

text \<open>
  The states of the member \<^verbatim>\<open>values\<close> that the class can bring about: the
  constructors build it, \<^verbatim>\<open>operator[]\<close> and a store through its reference (or
  through \<^verbatim>\<open>iterator->second\<close>) change it; the copy constructor is a sequence of
  these, and the assignment swaps in a copy.
\<close>

inductive JSONObject_values :: "(string \<times> ptr) list \<Rightarrow> bool" where
  default_ctor: "JSONObject_values []"
| range_ctor: "JSONObject_values (std_map_range xs)"
| subscript: "JSONObject_values values \<Longrightarrow> JSONObject_values (snd (std_map_subscript values index))"
| store: "JSONObject_values values \<Longrightarrow> JSONObject_values (std_map_store values index p)"

definition keys_ascending :: "(string \<times> ptr) list \<Rightarrow> bool" where
  "keys_ascending values = sorted_wrt JSONString_less (map fst values)"

subsection \<open>\<^verbatim>\<open>clone\<close>\<close>

text \<open>
  \<^verbatim>\<open>new JSONArray(*this)\<close> allocates the object, its \<^verbatim>\<open>values\<close> empty, and runs the
  copy constructor: \<^verbatim>\<open>std::transform\<close> clones each element of the original and
  \<^verbatim>\<open>push_back\<close>s the pointer. The copy constructor of \<^verbatim>\<open>JSONObject\<close> runs
  \<^verbatim>\<open>values[pa.first] = pa.second->clone()\<close> for each entry of the original.
\<close>

fun JSONArray_copy_loop ::
  "(heap \<Rightarrow> ptr \<Rightarrow> (ptr \<times> heap) result) \<Rightarrow> addr \<Rightarrow> heap \<Rightarrow> ptr list \<Rightarrow> heap result" where
  "JSONArray_copy_loop clone_val this h [] = Some (Inr h)"
| "JSONArray_copy_loop clone_val this h (val # rest) =
     (case clone_val h val of
        None \<Rightarrow> None
      | Some (Inl e) \<Rightarrow> Some (Inl e)
      | Some (Inr (p, h')) \<Rightarrow>
          (case push_back h' this p of
             Inl e \<Rightarrow> Some (Inl e)
           | Inr h'' \<Rightarrow> JSONArray_copy_loop clone_val this h'' rest))"

fun JSONObject_copy_loop ::
  "(heap \<Rightarrow> ptr \<Rightarrow> (ptr \<times> heap) result) \<Rightarrow> addr \<Rightarrow> heap \<Rightarrow> (string \<times> ptr) list
     \<Rightarrow> heap result" where
  "JSONObject_copy_loop clone_val this h [] = Some (Inr h)"
| "JSONObject_copy_loop clone_val this h (pa # rest) =
     (case clone_val h (snd pa) of
        None \<Rightarrow> None
      | Some (Inl e) \<Rightarrow> Some (Inl e)
      | Some (Inr (p, h')) \<Rightarrow>
          (case JSONObject_store h' this (fst pa) p of
             Inl e \<Rightarrow> Some (Inl e)
           | Inr h'' \<Rightarrow> JSONObject_copy_loop clone_val this h'' rest))"

fun clone :: "nat \<Rightarrow> heap \<Rightarrow> ptr \<Rightarrow> (ptr \<times> heap) result" where
  "clone 0 h p = None"
| "clone (Suc n) h p =
     (case deref h p of
        Inl e \<Rightarrow> Some (Inl e)
      | Inr JSONNullType \<Rightarrow>
          (case new h JSONNullType of (a, h') \<Rightarrow> Some (Inr (Ptr a, h')))
      | Inr (JSONBooleanType val) \<Rightarrow>
          (case new h (JSONBooleanType val) of (a, h') \<Rightarrow> Some (Inr (Ptr a, h')))
      | Inr (JSONArray values) \<Rightarrow>
          (case new h (JSONArray []) of
             (this, h') \<Rightarrow>
               (case JSONArray_copy_loop (clone n) this h' values of
                  None \<Rightarrow> None
                | Some (Inl e) \<Rightarrow> Some (Inl e)
                | Some (Inr h'') \<Rightarrow> Some (Inr (Ptr this, h''))))
      | Inr (JSONString val) \<Rightarrow>
          (case new h (JSONString val) of (a, h') \<Rightarrow> Some (Inr (Ptr a, h')))
      | Inr (JSONObject values) \<Rightarrow>
          (case new h (JSONObject []) of
             (this, h') \<Rightarrow>
               (case JSONObject_copy_loop (clone n) this h' values of
                  None \<Rightarrow> None
                | Some (Inl e) \<Rightarrow> Some (Inl e)
                | Some (Inr h'') \<Rightarrow> Some (Inr (Ptr this, h'')))))"

subsection \<open>The invariant of the data model\<close>

text \<open>
  A value is well formed when every pointer under it is the address of a cell, none is
  null, the structure is finite in depth (no container holds itself), and every map has
  its keys in ascending order. \<open>reach h p a\<close>: the cell \<open>a\<close> is a node of the structure
  under \<open>p\<close>.
\<close>

fun children :: "JSONValue \<Rightarrow> ptr list" where
  "children (JSONArray values) = values"
| "children (JSONObject values) = map snd values"
| "children v = []"

fun map_invariant :: "JSONValue \<Rightarrow> bool" where
  "map_invariant (JSONObject values) = keys_ascending values"
| "map_invariant v = True"

inductive well_formed :: "heap \<Rightarrow> ptr \<Rightarrow> bool" where
  node: "a < length h \<Longrightarrow> map_invariant (h ! a)
    \<Longrightarrow> (\<forall>q \<in> set (children (h ! a)). well_formed h q) \<Longrightarrow> well_formed h (Ptr a)"

inductive reach :: "heap \<Rightarrow> ptr \<Rightarrow> addr \<Rightarrow> bool" where
  self: "a < length h \<Longrightarrow> reach h (Ptr a) a"
| child: "a < length h \<Longrightarrow> q \<in> set (children (h ! a)) \<Longrightarrow> reach h q b \<Longrightarrow> reach h (Ptr a) b"

subsection \<open>The text of the specification\<close>

text \<open>The eight characters that the specification lists as escaped.\<close>

definition escaped_characters :: "char set" where
  "escaped_characters =
     {double_quote, backslash, slash, backspace, form_feed, newline, carriage_return,
      horizontal_tab}"

text \<open>The elements "joined by" a separator, as the specification words it.\<close>

fun join :: "string \<Rightarrow> string list \<Rightarrow> string" where
  "join sep [] = []"
| "join sep [s] = s"
| "join sep (s # t # ss) = s @ sep @ join sep (t # ss)"

text \<open>Removing the final two characters of a text.\<close>

definition drop_last_two :: "string \<Rightarrow> string" where
  "drop_last_two s = take (length s - 2) s"

text \<open>The array of the specification's example: \<^verbatim>\<open>[Null, Boolean(true), String("a")]\<close>.\<close>

definition example_heap :: heap where
  "example_heap =
     [JSONNullType, JSONBooleanType True, JSONString ''a'', JSONArray [Ptr 0, Ptr 1, Ptr 2]]"

text \<open>An object of two entries: the key \<^verbatim>\<open>x\<close> with a Null, the key \<^verbatim>\<open>y\<close> with a Boolean.\<close>

definition example_object_heap :: heap where
  "example_object_heap =
     [JSONObject [(''x'', Ptr 1), (''y'', Ptr 2)], JSONNullType, JSONBooleanType True]"

subsection \<open>Notions of the proofs about \<^verbatim>\<open>clone\<close>\<close>

text \<open>
  \<open>heap_extends h h'\<close>: the heap \<open>h'\<close> has the cells of \<open>h\<close>, unchanged, and maybe more.
  \<open>copy_of h0 q g q' lo\<close>: in the heap \<open>g\<close>, the value under \<open>q'\<close> is well formed, lies
  at the addresses from \<open>lo\<close> on, and serialises as the value under \<open>q\<close> does in \<open>h0\<close>.
  \<open>clone_ok h0 p\<close>: whenever \<^verbatim>\<open>clone\<close> returns on \<open>p\<close>, in a heap that extends \<open>h0\<close>,
  it has left the cells that were there alone and returns such a copy, in new cells.
\<close>

definition heap_extends :: "heap \<Rightarrow> heap \<Rightarrow> bool" where
  "heap_extends h h' \<longleftrightarrow> length h \<le> length h' \<and> (\<forall>b < length h. h' ! b = h ! b)"

definition copy_of :: "heap \<Rightarrow> ptr \<Rightarrow> heap \<Rightarrow> ptr \<Rightarrow> addr \<Rightarrow> bool" where
  "copy_of h0 q g q' lo \<longleftrightarrow>
     well_formed g q' \<and> (\<forall>b. reach g q' b \<longrightarrow> lo \<le> b)
     \<and> (\<forall>m. to_string m g q' = to_string m h0 q)"

definition clone_ok :: "heap \<Rightarrow> ptr \<Rightarrow> bool" where
  "clone_ok h0 p \<longleftrightarrow>
     (\<forall>n h p' h'. heap_extends h0 h \<longrightarrow> clone n h p = Some (Inr (p', h')) \<longrightarrow>
        p' = Ptr (length h) \<and> length h < length h' \<and> (\<forall>b < length h. h' ! b = h ! b)
        \<and> copy_of h0 p h' p' (length h))"

text \<open>
  The object of the specification's scenario, \<^verbatim>\<open>{"x": [true, null]}\<close>, and the heap
  after cloning it.
\<close>

definition nested_heap :: heap where
  "nested_heap =
     [JSONBooleanType True, JSONNullType, JSONArray [Ptr 0, Ptr 1], JSONObject [(''x'', Ptr 2)]]"

definition cloned_heap :: heap where
  "cloned_heap =
     nested_heap @
     [JSONObject [(''x'', Ptr 5)], JSONArray [Ptr 6, Ptr 7], JSONBooleanType True, JSONNullType]"

section \<open>Properties\<close>

subsection \<open>Escaping\<close>

lemma escape_loop_append: "escape_loop out str = out @ escape_loop [] str"
proof (induction str arbitrary: out)
  case Nil
  show ?case by simp
next
  case (Cons c str)
  have "escape_loop out (c # str) = escape_loop (out @ c_str (escape_buffer c)) str"
    by simp
  also have "\<dots> = (out @ c_str (escape_buffer c)) @ escape_loop [] str"
    by (rule Cons.IH)
  also have "\<dots> = out @ escape_loop (c_str (escape_buffer c)) str"
    using Cons.IH [of "c_str (escape_buffer c)"] by simp
  finally show ?case by simp
qed

lemma escape_str_Nil: "escape_str [] = []"
  by (simp add: escape_str_def)

lemma escape_str_Cons: "escape_str (c # str) = c_str (escape_buffer c) @ escape_str str"
  using escape_loop_append [of "c_str (escape_buffer c)" str] by (simp add: escape_str_def)

lemma escape_str_append: "escape_str (xs @ ys) = escape_str xs @ escape_str ys"
  by (induction xs) (simp_all add: escape_str_Nil escape_str_Cons)

lemma escape_buffer_NUL: "c_str (escape_buffer NUL) = []"
  by (simp add: escape_buffer_def c_str_def)

lemma escape_buffer_plain:
  "c \<notin> escaped_characters \<Longrightarrow> c \<noteq> NUL \<Longrightarrow> c_str (escape_buffer c) = [c]"
  by (simp add: escape_buffer_def c_str_def escaped_characters_def)

lemma escape_buffer_self:
  "c = double_quote \<or> c = backslash \<or> c = slash \<Longrightarrow> c_str (escape_buffer c) = [backslash, c]"
  by (auto simp add: escape_buffer_def c_str_def)

lemma escape_buffer_letters:
  "c_str (escape_buffer backspace) = [backslash, CHR ''b'']"
  "c_str (escape_buffer form_feed) = [backslash, CHR ''f'']"
  "c_str (escape_buffer newline) = [backslash, CHR ''n'']"
  "c_str (escape_buffer carriage_return) = [backslash, CHR ''r'']"
  "c_str (escape_buffer horizontal_tab) = [backslash, CHR ''t'']"
  by (simp_all add: escape_buffer_def c_str_def)

text \<open>
  Claim C9. \<^verbatim>\<open>escape_str\<close> does not pass every byte outside the escaped eight through:
  a NUL byte leaves the buffer \<^verbatim>\<open>ca\<close> an empty C string, so each NUL of the input,
  wherever it stands, adds nothing to the output; every other byte outside the eight is
  copied as it is. The output is that of the input with its NUL bytes removed.
\<close>

theorem escape_str_drops_NUL:
  "escape_str (xs @ NUL # ys) = escape_str xs @ escape_str ys
   \<and> (c \<notin> escaped_characters \<and> c \<noteq> NUL
        \<longrightarrow> escape_str (xs @ c # ys) = escape_str xs @ c # escape_str ys)
   \<and> escape_str (filter (\<lambda>c. c \<noteq> NUL) str) = escape_str str"
proof (intro conjI impI)
  show "escape_str (xs @ NUL # ys) = escape_str xs @ escape_str ys"
    by (simp add: escape_str_append escape_str_Cons escape_buffer_NUL)
  show "escape_str (xs @ c # ys) = escape_str xs @ c # escape_str ys"
    if "c \<notin> escaped_characters \<and> c \<noteq> NUL"
    using that by (simp add: escape_str_append escape_str_Cons escape_buffer_plain)
  show "escape_str (filter (\<lambda>c. c \<noteq> NUL) str) = escape_str str"
    by (induction str) (simp_all add: escape_str_Cons escape_buffer_NUL)
qed

theorem escape_str_drops_NUL_witness:
  "CHR ''b'' \<notin> escaped_characters \<and> CHR ''b'' \<noteq> NUL
   \<and> escape_str (''a'' @ NUL # ''c'') = ''ac''
   \<and> escape_str (''a'' @ CHR ''b'' # [NUL]) = ''ab''"
  using escape_str_drops_NUL [of "''a''" "''c''" "CHR ''b''" "[]"]
    escape_str_drops_NUL [of "''a''" "[NUL]" "CHR ''b''" "[]"]
  by (simp add: escaped_characters_def escape_str_Cons escape_str_Nil escape_buffer_NUL
      escape_buffer_plain)

text \<open>
  Claim C1. \<^verbatim>\<open>JSONString(s).to_string()\<close> is a double quote, \<^verbatim>\<open>escape_str(s)\<close> and a
  double quote, and \<^verbatim>\<open>escape_str\<close> is to map every byte outside the escaped eight to
  itself. At the string of the single byte NUL the code does not: \<^verbatim>\<open>escape_str\<close>
  returns the empty string and \<^verbatim>\<open>to_string\<close> the two quotes alone.
\<close>

theorem JSONString_to_string_NUL:
  "to_string (Suc n) [JSONString [NUL]] (Ptr 0) = Some (Inr [double_quote, double_quote])
   \<and> escape_str [NUL] = []"
  by (simp add: deref_def JSONString_to_string_def escape_str_Cons escape_str_Nil
      escape_buffer_NUL)

subsection \<open>Serialising containers\<close>

lemma JSONArray_to_string_loop_returns:
  "map f vals = map (\<lambda>s. Some (Inr s)) ss
   \<Longrightarrow> JSONArray_to_string_loop f out vals
       = Some (Inr (out @ concat (map (\<lambda>s. s @ '', '') ss)))"
proof (induction vals arbitrary: out ss)
  case Nil
  then show ?case by simp
next
  case (Cons val vals)
  then obtain s ss' where ss: "ss = s # ss'" by (cases ss) auto
  with Cons.prems have "f val = Some (Inr s)" "map f vals = map (\<lambda>s. Some (Inr s)) ss'"
    by simp_all
  then show ?case using Cons.IH [of ss' "(out @ s) @ '', ''"] ss by simp
qed

lemma concat_sep_join: "ss \<noteq> [] \<Longrightarrow> concat (map (\<lambda>s. s @ sep) ss) = join sep ss @ sep"
  by (induction sep ss rule: join.induct) simp_all

lemma erase_append_two:
  "erase_append (out @ [c, d]) closing = Some (Inr (out @ closing))"
  by (simp add: erase_append_def string_erase_def size_t_minus_def)

lemma JSONObject_to_string_loop_returns:
  "map (\<lambda>pa. f (snd pa)) vals = map (\<lambda>s. Some (Inr s)) ss
   \<Longrightarrow> JSONObject_to_string_loop f out vals
       = Some (Inr (out @ concat (map2 (\<lambda>pa s. JSONString_to_string (fst pa) @ s) vals ss)))"
proof (induction vals arbitrary: out ss)
  case Nil
  then show ?case by simp
next
  case (Cons pa vals)
  then obtain s ss' where ss: "ss = s # ss'" by (cases ss) auto
  with Cons.prems have "f (snd pa) = Some (Inr s)"
    "map (\<lambda>pa. f (snd pa)) vals = map (\<lambda>s. Some (Inr s)) ss'"
    by simp_all
  then show ?case
    using Cons.IH [of ss' "(out @ JSONString_to_string (fst pa)) @ s"] ss by simp
qed

lemma erase_append_drop_last_two:
  "2 \<le> length body \<Longrightarrow> erase_append (out @ body) closing = Some (Inr (out @ drop_last_two body @ closing))"
  by (simp add: erase_append_def string_erase_def size_t_minus_def drop_last_two_def)

lemma entries_text_length:
  assumes "vals \<noteq> []" "length ss = length vals"
  shows "2 \<le> length (concat (map2 (\<lambda>pa s. JSONString_to_string (fst pa) @ s) vals ss))"
proof -
  obtain pa vals' where v: "vals = pa # vals'" using assms(1) by (cases vals) auto
  with assms(2) obtain s ss' where ss: "ss = s # ss'" by (cases ss) auto
  show ?thesis by (simp add: v ss JSONString_to_string_def)
qed

text \<open>
  Claim C4. \<^verbatim>\<open>Array().to_string()\<close> is to return \<^verbatim>\<open>[]\<close> and
  \<^verbatim>\<open>Object().to_string()\<close> is to return \<^verbatim>\<open>{}\<close>. The code does not short-circuit the
  empty case: \<^verbatim>\<open>out\<close> is one character long, \<^verbatim>\<open>out.size() - 2\<close> wraps around to
  \<open>2 ^ 64 - 1\<close>, and \<^verbatim>\<open>erase\<close> throws \<^verbatim>\<open>std::out_of_range\<close>, for the array and for the
  object.
\<close>

theorem empty_container_to_string_throws:
  "to_string (Suc n) [JSONArray []] (Ptr 0) = Some (Inl out_of_range)
   \<and> to_string (Suc n) [JSONObject []] (Ptr 0) = Some (Inl out_of_range)"
  by (simp add: deref_def erase_append_def string_erase_def size_t_minus_def)

text \<open>
  Claim C3. For a non-empty \<^verbatim>\<open>JSONArray\<close> whose elements' \<^verbatim>\<open>to_string()\<close> return the
  texts \<open>ss\<close>, in storage order, \<^verbatim>\<open>to_string()\<close> returns \<^verbatim>\<open>[\<close>, the texts joined by
  \<^verbatim>\<open>", "\<close>, and \<^verbatim>\<open>]\<close>; for the array \<^verbatim>\<open>[Null, Boolean(true), String("a")]\<close> it
  returns exactly \<^verbatim>\<open>[null, true, "a"]\<close>.
\<close>

theorem JSONArray_to_string_joined:
  "(vals \<noteq> [] \<and> a < length h \<and> h ! a = JSONArray vals
      \<and> map (to_string n h) vals = map (\<lambda>s. Some (Inr s)) ss
    \<longrightarrow> to_string (Suc n) h (Ptr a) = Some (Inr (''['' @ join '', '' ss @ '']'')))
   \<and> to_string 2 example_heap (Ptr 3) = Some (Inr ''[null, true, \"a\"]'')"
proof (intro conjI impI)
  assume A: "vals \<noteq> [] \<and> a < length h \<and> h ! a = JSONArray vals
      \<and> map (to_string n h) vals = map (\<lambda>s. Some (Inr s)) ss"
  then have "length ss = length vals" by (metis length_map)
  with A have ss: "ss \<noteq> []" by auto
  have "JSONArray_to_string_loop (to_string n h) ''['' vals
      = Some (Inr ((''['' @ join '', '' ss) @ '', ''))"
    using A JSONArray_to_string_loop_returns [of "to_string n h" vals ss "''[''"]
    by (simp add: concat_sep_join [OF ss])
  then show "to_string (Suc n) h (Ptr a) = Some (Inr (''['' @ join '', '' ss @ '']''))"
    using A erase_append_two [of "''['' @ join '', '' ss" "CHR '',''" "CHR '' ''" "'']''"]
    by (simp add: deref_def)
next
  show "to_string 2 example_heap (Ptr 3) = Some (Inr ''[null, true, \"a\"]'')"
    by (simp add: example_heap_def numeral_2_eq_2 deref_def erase_append_def string_erase_def
        size_t_minus_def JSONString_to_string_def escape_str_def escape_buffer_def c_str_def)
qed

theorem JSONArray_to_string_joined_witness:
  "[Ptr 0, Ptr 1, Ptr 2] \<noteq> [] \<and> 3 < length example_heap
   \<and> example_heap ! 3 = JSONArray [Ptr 0, Ptr 1, Ptr 2]
   \<and> map (to_string 1 example_heap) [Ptr 0, Ptr 1, Ptr 2]
       = map (\<lambda>s. Some (Inr s)) [''null'', ''true'', ''\"a\"'']
   \<and> to_string (Suc 1) example_heap (Ptr 3)
       = Some (Inr (''['' @ join '', '' [''null'', ''true'', ''\"a\"''] @ '']''))
   \<and> ''['' @ join '', '' [''null'', ''true'', ''\"a\"''] @ '']'' = ''[null, true, \"a\"]''"
  using JSONArray_to_string_joined
    [of "[Ptr 0, Ptr 1, Ptr 2]" 3 example_heap 1 "[''null'', ''true'', ''\"a\"'']"]
  by (simp add: example_heap_def deref_def JSONString_to_string_def escape_str_def
      escape_buffer_def c_str_def)

text \<open>
  Claim C5. For a non-empty \<^verbatim>\<open>JSONObject\<close> whose values' \<^verbatim>\<open>to_string()\<close> return the
  texts \<open>ss\<close>, in the iteration order of the map (its key order), \<^verbatim>\<open>to_string()\<close>
  returns \<^verbatim>\<open>{\<close>, then the text accumulated over the entries, each the quoted and
  escaped key followed at once by the text of the value, with no colon and no separator,
  its final two characters removed, then \<^verbatim>\<open>}\<close>.
\<close>

theorem JSONObject_to_string_concatenated:
  assumes "vals \<noteq> []" and "a < length h" and "h ! a = JSONObject vals"
    and "map (\<lambda>pa. to_string n h (snd pa)) vals = map (\<lambda>s. Some (Inr s)) ss"
  shows "to_string (Suc n) h (Ptr a)
    = Some (Inr (''{'' @ drop_last_two
         (concat (map2 (\<lambda>pa s. JSONString_to_string (fst pa) @ s) vals ss)) @ ''}''))"
proof -
  have len: "length ss = length vals" using assms(4) by (metis length_map)
  have "JSONObject_to_string_loop (to_string n h) ''{'' vals
      = Some (Inr (''{'' @ concat (map2 (\<lambda>pa s. JSONString_to_string (fst pa) @ s) vals ss)))"
    using assms(4) by (rule JSONObject_to_string_loop_returns)
  moreover have "erase_append
      (''{'' @ concat (map2 (\<lambda>pa s. JSONString_to_string (fst pa) @ s) vals ss)) ''}''
    = Some (Inr (''{'' @ drop_last_two
         (concat (map2 (\<lambda>pa s. JSONString_to_string (fst pa) @ s) vals ss)) @ ''}''))"
    by (rule erase_append_drop_last_two [OF entries_text_length [OF assms(1) len]])
  ultimately show ?thesis
    using assms(2,3) by (simp add: deref_def)
qed

theorem JSONObject_to_string_concatenated_witness:
  "[(''x'', Ptr 1), (''y'', Ptr 2)] \<noteq> []
   \<and> 0 < length example_object_heap
   \<and> example_object_heap ! 0 = JSONObject [(''x'', Ptr 1), (''y'', Ptr 2)]
   \<and> map (\<lambda>pa. to_string 1 example_object_heap (snd pa)) [(''x'', Ptr 1), (''y'', Ptr 2)]
       = map (\<lambda>s. Some (Inr s)) [''null'', ''true'']
   \<and> to_string (Suc 1) example_object_heap (Ptr 0) = Some (Inr ''{\"x\"null\"y\"tr}'')"
  using JSONObject_to_string_concatenated
    [of "[(''x'', Ptr 1), (''y'', Ptr 2)]" 0 example_object_heap 1 "[''null'', ''true'']"]
  by (simp add: example_object_heap_def deref_def JSONString_to_string_def escape_str_def
      escape_buffer_def c_str_def drop_last_two_def)

subsection \<open>The map of an object\<close>

lemma set_std_map_insert:
  "set (std_map_insert vals pb) \<subseteq> insert pb (set vals)"
  by (induction vals) auto

lemma set_std_map_subscript:
  "set (snd (std_map_subscript vals key)) \<subseteq> insert (key, nullptr) (set vals)"
  by (induction vals) (auto split: prod.splits)

lemma keys_std_map_store: "map fst (std_map_store vals key p) = map fst vals"
  by (induction vals) auto

lemma keys_ascending_Cons:
  "keys_ascending (pa # vals) \<longleftrightarrow> (\<forall>k \<in> fst ` set vals. fst pa < k) \<and> keys_ascending vals"
  by (auto simp add: keys_ascending_def)

lemma keys_ascending_insert:
  "keys_ascending vals \<Longrightarrow> keys_ascending (std_map_insert vals pb)"
proof (induction vals)
  case Nil
  show ?case by (simp add: keys_ascending_def)
next
  case (Cons pa vals)
  show ?case
  proof (cases "fst pb < fst pa")
    case True
    with Cons.prems show ?thesis
      by (auto simp add: keys_ascending_Cons)
  next
    case False
    show ?thesis
    proof (cases "fst pa < fst pb")
      case True
      with False Cons set_std_map_insert [of vals pb] show ?thesis
        by (auto simp add: keys_ascending_Cons)
    next
      case False
      with \<open>\<not> fst pb < fst pa\<close> Cons.prems show ?thesis by simp
    qed
  qed
qed

lemma keys_ascending_subscript:
  "keys_ascending vals \<Longrightarrow> keys_ascending (snd (std_map_subscript vals key))"
proof (induction vals)
  case Nil
  show ?case by (simp add: keys_ascending_def)
next
  case (Cons pa vals)
  show ?case
  proof (cases "key < fst pa")
    case True
    with Cons.prems show ?thesis
      by (auto simp add: keys_ascending_Cons)
  next
    case False
    show ?thesis
    proof (cases "fst pa < key")
      case True
      with False Cons set_std_map_subscript [of vals key] show ?thesis
        by (auto simp add: keys_ascending_Cons split: prod.splits)
    next
      case False
      with \<open>\<not> key < fst pa\<close> Cons.prems show ?thesis by simp
    qed
  qed
qed

lemma keys_ascending_store:
  "keys_ascending vals \<Longrightarrow> keys_ascending (std_map_store vals key p)"
  by (simp add: keys_ascending_def keys_std_map_store)

lemma keys_ascending_foldl_insert:
  "keys_ascending vals \<Longrightarrow> keys_ascending (foldl std_map_insert vals xs)"
  by (induction xs arbitrary: vals) (simp_all add: keys_ascending_insert)

lemma keys_ascending_distinct: "keys_ascending vals \<Longrightarrow> distinct (map fst vals)"
  by (simp add: keys_ascending_def strict_sorted_iff)

text \<open>
  Claim C6. In every \<^verbatim>\<open>JSONObject\<close> the keys are unique and the iteration, which the
  serialisation follows, visits the entries in ascending order of key, whatever the order
  of insertion; keys are equated and ordered by their raw character sequences (the
  \<^verbatim>\<open>value\<close> of the key, not its escaped text).
\<close>

theorem JSONObject_keys_ascending:
  assumes "JSONObject_values vals"
  shows "keys_ascending vals \<and> distinct (map fst vals)"
proof -
  from assms have "keys_ascending vals"
  proof (induction rule: JSONObject_values.induct)
    case default_ctor
    show ?case by (simp add: keys_ascending_def)
  next
    case (range_ctor xs)
    show ?case unfolding std_map_range_def
      by (rule keys_ascending_foldl_insert) (simp add: keys_ascending_def)
  next
    case (subscript vals index)
    then show ?case by (simp add: keys_ascending_subscript)
  next
    case (store vals index p)
    then show ?case by (simp add: keys_ascending_store)
  qed
  then show ?thesis by (simp add: keys_ascending_distinct)
qed

theorem JSONObject_keys_ascending_witness:
  "JSONObject_values
     (std_map_store (snd (std_map_subscript (snd (std_map_subscript [] ''A'')) [newline])) [newline] (Ptr 7))
   \<and> std_map_store (snd (std_map_subscript (snd (std_map_subscript [] ''A'')) [newline])) [newline] (Ptr 7)
       = [([newline], Ptr 7), (''A'', nullptr)]
   \<and> keys_ascending [([newline], Ptr 7), (''A'', nullptr)]
   \<and> \<not> escape_str [newline] < escape_str ''A''"
proof -
  have "JSONObject_values
     (std_map_store (snd (std_map_subscript (snd (std_map_subscript [] ''A'')) [newline])) [newline] (Ptr 7))"
    by (intro JSONObject_values.intros)
  from this JSONObject_keys_ascending [OF this] show ?thesis
    by (simp add: escape_str_Cons escape_str_Nil escape_buffer_letters escape_buffer_plain escaped_characters_def)
qed

subsection \<open>Access to the elements of an array\<close>

text \<open>
  Claim C7, as the specification has it: an access \<^verbatim>\<open>a[i]\<close> with \<open>i \<ge> a.size()\<close>
  signals an out-of-range failure. It does not: on the empty array the access at 0 is
  undefined behaviour, and nothing is thrown.
\<close>

theorem JSONArray_subscript_out_of_range_counterexample:
  "JSONArray_subscript [JSONArray []] 0 0 = Inl undefined_behaviour
   \<and> JSONArray_subscript [JSONArray []] 0 0 \<noteq> Inl out_of_range"
  by (simp add: JSONArray_subscript_def deref_def)

text \<open>
  Claim C7, amended. \<^verbatim>\<open>a[i]\<close> has the precondition \<open>i < a.size()\<close>: under it the
  access yields the slot of the element \<open>i\<close>, to read or to write. The code checks no
  bound and signals nothing: for \<open>i \<ge> a.size()\<close> the access, read or write, is
  undefined behaviour.
\<close>

theorem JSONArray_subscript_unchecked:
  assumes "this < length h" and "h ! this = JSONArray vals"
  shows "(index < length vals \<longrightarrow>
            JSONArray_subscript h this index = Inr (vals ! index)
          \<and> JSONArray_store h this index p = Inr (h[this := JSONArray (vals[index := p])]))
       \<and> (length vals \<le> index \<longrightarrow>
            JSONArray_subscript h this index = Inl undefined_behaviour
          \<and> JSONArray_store h this index p = Inl undefined_behaviour)
       \<and> JSONArray_size h this = Inr (length vals)"
  using assms by (simp add: JSONArray_subscript_def JSONArray_store_def JSONArray_size_def deref_def)

theorem JSONArray_subscript_unchecked_witness:
  "3 < length example_heap \<and> example_heap ! 3 = JSONArray [Ptr 0, Ptr 1, Ptr 2]
   \<and> (2::nat) < length [Ptr 0, Ptr 1, Ptr 2]
   \<and> JSONArray_subscript example_heap 3 2 = Inr (Ptr 2)
   \<and> length [Ptr 0, Ptr 1, Ptr 2] \<le> (3::nat)
   \<and> JSONArray_subscript example_heap 3 3 = Inl undefined_behaviour"
  using JSONArray_subscript_unchecked [of 3 example_heap "[Ptr 0, Ptr 1, Ptr 2]" 2 nullptr]
    JSONArray_subscript_unchecked [of 3 example_heap "[Ptr 0, Ptr 1, Ptr 2]" 3 nullptr]
  by (simp add: example_heap_def)

subsection \<open>Access to the entries of an object\<close>

lemma std_find_end: "std_find eq xs val \<noteq> length xs \<longleftrightarrow> (\<exists>x \<in> set xs. eq x val)"
  by (induction xs) auto

lemma contains_keys:
  "std_find entry_equals vals key \<noteq> length vals \<longleftrightarrow> key \<in> fst ` set vals"
  by (auto simp add: std_find_end entry_equals_def)

text \<open>
  Claim C8. \<^verbatim>\<open>o.contains(k)\<close> returns true exactly when the object holds an entry
  whose key equals \<open>k\<close>. The member function is \<^verbatim>\<open>const\<close> and only reads: it returns
  the truth value and no heap, the object is as it was.
\<close>

theorem JSONObject_contains_iff:
  assumes "this < length h" and "h ! this = JSONObject vals"
  shows "JSONObject_contains h this key = Inr (key \<in> fst ` set vals)"
  using assms by (simp add: JSONObject_contains_def deref_def contains_keys)

theorem JSONObject_contains_iff_witness:
  "0 < length example_object_heap
   \<and> example_object_heap ! 0 = JSONObject [(''x'', Ptr 1), (''y'', Ptr 2)]
   \<and> JSONObject_contains example_object_heap 0 ''y'' = Inr True
   \<and> JSONObject_contains example_object_heap 0 ''z'' = Inr False"
  using JSONObject_contains_iff [of 0 example_object_heap "[(''x'', Ptr 1), (''y'', Ptr 2)]" "''y''"]
    JSONObject_contains_iff [of 0 example_object_heap "[(''x'', Ptr 1), (''y'', Ptr 2)]" "''z''"]
  by (simp add: example_object_heap_def)

lemma std_map_subscript_absent:
  "key \<notin> fst ` set vals \<Longrightarrow>
     fst (std_map_subscript vals key) = nullptr
     \<and> length (snd (std_map_subscript vals key)) = Suc (length vals)
     \<and> map_of (snd (std_map_subscript vals key)) = (map_of vals)(key \<mapsto> nullptr)"
proof (induction vals)
  case Nil
  show ?case by simp
next
  case (Cons pa vals)
  then have ne: "key \<noteq> fst pa" and IH: "fst (std_map_subscript vals key) = nullptr
     \<and> length (snd (std_map_subscript vals key)) = Suc (length vals)
     \<and> map_of (snd (std_map_subscript vals key)) = (map_of vals)(key \<mapsto> nullptr)"
    by auto
  from ne have "key < fst pa \<or> fst pa < key" by auto
  then show ?case
  proof
    assume "key < fst pa"
    with ne show ?thesis by (cases pa) (auto simp add: fun_eq_iff)
  next
    assume gt: "fst pa < key"
    then have "\<not> key < fst pa" by simp
    with gt IH ne show ?thesis
      by (cases pa) (auto split: prod.splits simp add: fun_upd_twist)
  qed
qed

lemma well_formed_children: "well_formed h (Ptr a) \<Longrightarrow> q \<in> set (children (h ! a)) \<Longrightarrow> well_formed h q"
  by (erule well_formed.cases) simp

lemma not_well_formed_nullptr: "\<not> well_formed h nullptr"
  by (auto elim: well_formed.cases)

text \<open>
  Claim C10. Where the object holds no entry for \<open>k\<close>, evaluating \<^verbatim>\<open>o[k]\<close> changes it:
  the map gains the entry of \<open>k\<close> with the null pointer and keeps the others, the size
  grows by one, the object then contains \<open>k\<close>, the reference reads null, and the object
  is no longer well formed.
\<close>

theorem JSONObject_subscript_inserts_null:
  assumes "this < length h" and "h ! this = JSONObject vals" and "index \<notin> fst ` set vals"
  shows "\<exists>vals'. JSONObject_subscript h this index = Inr (nullptr, h[this := JSONObject vals'])
     \<and> map_of vals' = (map_of vals)(index \<mapsto> nullptr)
     \<and> JSONObject_size (h[this := JSONObject vals']) this = Inr (Suc (length vals))
     \<and> JSONObject_size h this = Inr (length vals)
     \<and> JSONObject_contains (h[this := JSONObject vals']) this index = Inr True
     \<and> JSONObject_contains h this index = Inr False
     \<and> \<not> well_formed (h[this := JSONObject vals']) (Ptr this)"
proof -
  define vals' where "vals' = snd (std_map_subscript vals index)"
  define h' where "h' = h[this := JSONObject vals']"
  have sub: "std_map_subscript vals index = (nullptr, vals')"
    and len: "length vals' = Suc (length vals)"
    and mp: "map_of vals' = (map_of vals)(index \<mapsto> nullptr)"
    using std_map_subscript_absent [OF assms(3)] by (simp_all add: vals'_def prod_eq_iff)
  have h': "this < length h'" "h' ! this = JSONObject vals'"
    using assms(1) by (simp_all add: h'_def)
  have "map_of vals' index = Some nullptr" by (simp add: mp)
  then have mem: "(index, nullptr) \<in> set vals'" by (rule map_of_SomeD)
  then have "nullptr \<in> set (children (h' ! this))" by (force simp add: h')
  then have nwf: "\<not> well_formed h' (Ptr this)"
    using well_formed_children [of h' this nullptr] not_well_formed_nullptr by blast
  from mem have "index \<in> fst ` set vals'" by force
  then have c': "JSONObject_contains h' this index = Inr True"
    using h' by (simp add: JSONObject_contains_def deref_def contains_keys)
  have c: "JSONObject_contains h this index = Inr False"
    using assms by (simp add: JSONObject_contains_def deref_def contains_keys)
  have "JSONObject_subscript h this index = Inr (nullptr, h')"
    using assms(1,2) sub by (simp add: JSONObject_subscript_def deref_def h'_def)
  moreover have "JSONObject_size h' this = Inr (Suc (length vals))"
    using h' len by (simp add: JSONObject_size_def deref_def)
  moreover have "JSONObject_size h this = Inr (length vals)"
    using assms(1,2) by (simp add: JSONObject_size_def deref_def)
  ultimately show ?thesis using mp c c' nwf unfolding h'_def by blast
qed

theorem JSONObject_subscript_inserts_null_witness:
  "0 < length example_object_heap
   \<and> example_object_heap ! 0 = JSONObject [(''x'', Ptr 1), (''y'', Ptr 2)]
   \<and> ''xx'' \<notin> fst ` set [(''x'', Ptr 1), (''y'', Ptr 2)]
   \<and> JSONObject_subscript example_object_heap 0 ''xx''
       = Inr (nullptr, [JSONObject [(''x'', Ptr 1), (''xx'', nullptr), (''y'', Ptr 2)],
                        JSONNullType, JSONBooleanType True])
   \<and> JSONObject_size [JSONObject [(''x'', Ptr 1), (''xx'', nullptr), (''y'', Ptr 2)],
                        JSONNullType, JSONBooleanType True] 0 = Inr 3"
  using JSONObject_subscript_inserts_null
    [of 0 example_object_heap "[(''x'', Ptr 1), (''y'', Ptr 2)]" "''xx''"]
  by (simp add: example_object_heap_def JSONObject_subscript_def JSONObject_size_def deref_def)

subsection \<open>Deep copies\<close>

text \<open>A value is read within its nodes only.\<close>

lemma reach_bound: "reach h p b \<Longrightarrow> b < length h"
  by (induction rule: reach.induct) simp_all

lemma reach_child: "a < length h \<Longrightarrow> q \<in> set (children (h ! a)) \<Longrightarrow> reach h q b \<Longrightarrow> reach h (Ptr a) b"
  by (rule reach.child)

lemma JSONArray_to_string_loop_cong:
  "list_all2 (\<lambda>q' q. f q' = g q) vals' vals
   \<Longrightarrow> JSONArray_to_string_loop f out vals' = JSONArray_to_string_loop g out vals"
proof (induction vals' vals arbitrary: out rule: list_all2_induct)
  case Nil
  show ?case by simp
next
  case (Cons q' vals' q vals)
  then show ?case by (simp split: option.splits sum.splits)
qed

lemma JSONObject_to_string_loop_cong:
  "list_all2 (\<lambda>pa' pa. fst pa' = fst pa \<and> f (snd pa') = g (snd pa)) vals' vals
   \<Longrightarrow> JSONObject_to_string_loop f out vals' = JSONObject_to_string_loop g out vals"
proof (induction vals' vals arbitrary: out rule: list_all2_induct)
  case Nil
  show ?case by simp
next
  case (Cons q' vals' q vals)
  then show ?case by (simp split: option.splits sum.splits)
qed

lemma to_string_step_cong:
  assumes "deref h2 p = deref h p"
    and "\<And>v q. deref h p = Inr v \<Longrightarrow> q \<in> set (children v) \<Longrightarrow> to_string m h2 q = to_string m h q"
  shows "to_string (Suc m) h2 p = to_string (Suc m) h p"
proof (cases "deref h p")
  case (Inl e)
  with assms(1) show ?thesis by simp
next
  case (Inr v)
  show ?thesis
  proof (cases v)
    case (JSONArray vals)
    have "list_all2 (\<lambda>q' q. to_string m h2 q' = to_string m h q) vals vals"
      using assms(2) [OF Inr] JSONArray by (simp add: list_all2_same)
    then have "JSONArray_to_string_loop (to_string m h2) ''['' vals
        = JSONArray_to_string_loop (to_string m h) ''['' vals"
      by (rule JSONArray_to_string_loop_cong)
    with assms(1) Inr JSONArray show ?thesis by simp
  next
    case (JSONObject vals)
    have "list_all2 (\<lambda>pa' pa. fst pa' = fst pa \<and> to_string m h2 (snd pa') = to_string m h (snd pa)) vals vals"
      using assms(2) [OF Inr] JSONObject by (simp add: list_all2_same)
    then have "JSONObject_to_string_loop (to_string m h2) ''{'' vals
        = JSONObject_to_string_loop (to_string m h) ''{'' vals"
      by (rule JSONObject_to_string_loop_cong)
    with assms(1) Inr JSONObject show ?thesis by simp
  qed (use assms(1) Inr in simp_all)
qed

text \<open>The frame: a heap that agrees with \<open>h\<close> on the nodes under \<open>p\<close>.\<close>

lemma frame:
  assumes "well_formed h p"
  shows "(\<forall>b. reach h p b \<longrightarrow> b < length h2 \<and> h2 ! b = h ! b)
    \<Longrightarrow> well_formed h2 p \<and> (\<forall>m. to_string m h2 p = to_string m h p)
        \<and> (\<forall>b. reach h2 p b \<longrightarrow> reach h p b)"
  using assms
proof (induction rule: well_formed.induct)
  case (node a h)
  have a: "a < length h2" "h2 ! a = h ! a"
    using node.prems reach.self [OF node.hyps(1)] by auto
  have kids: "well_formed h2 q \<and> (\<forall>m. to_string m h2 q = to_string m h q)
        \<and> (\<forall>b. reach h2 q b \<longrightarrow> reach h q b)" if q: "q \<in> set (children (h ! a))" for q
  proof -
    have "\<forall>b. reach h q b \<longrightarrow> b < length h2 \<and> h2 ! b = h ! b"
      using node.prems reach.child [OF node.hyps(1) q] by blast
    with node.IH q show ?thesis by blast
  qed
  have wf: "well_formed h2 (Ptr a)"
    using a node.hyps(2) kids by (intro well_formed.node) simp_all
  have ts: "to_string m h2 (Ptr a) = to_string m h (Ptr a)" for m
  proof (cases m)
    case 0
    then show ?thesis by simp
  next
    case (Suc m')
    have "deref h2 (Ptr a) = deref h (Ptr a)"
      using a node.hyps(1) by (simp add: deref_def)
    moreover have "to_string m' h2 q = to_string m' h q"
      if "deref h (Ptr a) = Inr v" "q \<in> set (children v)" for v q
      using that kids node.hyps(1) by (simp add: deref_def)
    ultimately show ?thesis unfolding Suc by (rule to_string_step_cong)
  qed
  have rch: "reach h (Ptr a) b" if "reach h2 (Ptr a) b" for b
    using that
  proof (cases rule: reach.cases)
    case self
    then show ?thesis using node.hyps(1) by (simp add: reach.self)
  next
    case (child q)
    then have "q \<in> set (children (h ! a))" using a by simp
    with child kids have "reach h q b" by blast
    with \<open>q \<in> set (children (h ! a))\<close> show ?thesis
      using node.hyps(1) by (blast intro: reach.child)
  qed
  from wf ts rch show ?case by blast
qed


lemma copy_of_frame:
  assumes "copy_of h0 q g q' lo" and "length g \<le> length g2"
    and "\<forall>b. lo \<le> b \<and> b < length g \<longrightarrow> g2 ! b = g ! b"
  shows "copy_of h0 q g2 q' lo"
proof -
  from assms(1) have wf: "well_formed g q'" and lo: "\<forall>b. reach g q' b \<longrightarrow> lo \<le> b"
    and ts: "\<forall>m. to_string m g q' = to_string m h0 q"
    by (simp_all add: copy_of_def)
  have "\<forall>b. reach g q' b \<longrightarrow> b < length g2 \<and> g2 ! b = g ! b"
    using lo assms(2,3) reach_bound [of g q'] by fastforce
  from frame [OF wf this] ts lo show ?thesis
    by (simp add: copy_of_def)
qed

lemma copy_of_lower: "copy_of h0 q g q' lo \<Longrightarrow> lo' \<le> lo \<Longrightarrow> copy_of h0 q g q' lo'"
  by (fastforce simp add: copy_of_def)

lemma JSONArray_copy_loop_ok:
  assumes "\<forall>q \<in> set vals. clone_ok h0 q"
    and "heap_extends h0 g" and "length h0 \<le> this" and "this < length g"
    and "g ! this = JSONArray acc"
    and "list_all2 (\<lambda>q' q. copy_of h0 q g q' (Suc this)) acc done"
    and "JSONArray_copy_loop (clone n) this g vals = Some (Inr g')"
  shows "\<exists>vals'. g' ! this = JSONArray vals'
     \<and> list_all2 (\<lambda>q' q. copy_of h0 q g' q' (Suc this)) vals' (done @ vals)
     \<and> length g \<le> length g' \<and> (\<forall>b < length g. b \<noteq> this \<longrightarrow> g' ! b = g ! b)"
  using assms
proof (induction vals arbitrary: g acc "done")
  case Nil
  then show ?case by simp
next
  case (Cons val rest)
  from Cons.prems(7) obtain p g1 where cl: "clone n g val = Some (Inr (p, g1))"
    by (auto split: option.splits sum.splits)
  from Cons.prems(1) have "clone_ok h0 val" by simp
  with cl Cons.prems(2) have p: "p = Ptr (length g)" and len1: "length g < length g1"
    and same1: "\<forall>b < length g. g1 ! b = g ! b" and cp: "copy_of h0 val g1 p (length g)"
    unfolding clone_ok_def by blast+
  define g2 where "g2 = g1[this := JSONArray (acc @ [p])]"
  have this1: "this < length g1" "g1 ! this = JSONArray acc"
    using Cons.prems(4,5) len1 same1 by auto
  then have pb: "push_back g1 this p = Inr g2"
    by (simp add: push_back_def deref_def g2_def)
  with cl Cons.prems(7) have loop: "JSONArray_copy_loop (clone n) this g2 rest = Some (Inr g')"
    by simp
  have ext2: "heap_extends h0 g2"
    using Cons.prems(2,3) len1 same1 by (auto simp add: heap_extends_def g2_def)
  have this2: "this < length g2" "g2 ! this = JSONArray (acc @ [p])"
    using this1 by (simp_all add: g2_def)
  have old: "list_all2 (\<lambda>q' q. copy_of h0 q g2 q' (Suc this)) acc done"
  proof (rule list_all2_mono [OF Cons.prems(6)])
    fix q' q assume "copy_of h0 q g q' (Suc this)"
    then show "copy_of h0 q g2 q' (Suc this)"
    proof (rule copy_of_frame)
      show "length g \<le> length g2" using len1 by (simp add: g2_def)
      show "\<forall>b. Suc this \<le> b \<and> b < length g \<longrightarrow> g2 ! b = g ! b"
        using same1 by (simp add: g2_def)
    qed
  qed
  have "copy_of h0 val g1 p (Suc this)"
    using Cons.prems(4) by (intro copy_of_lower [OF cp]) simp
  then have new: "copy_of h0 val g2 p (Suc this)"
    by (rule copy_of_frame) (auto simp add: g2_def)
  from old new have inv2: "list_all2 (\<lambda>q' q. copy_of h0 q g2 q' (Suc this)) (acc @ [p]) (done @ [val])"
    by (simp add: list_all2_appendI)
  from Cons.prems(1) have kids: "\<forall>q \<in> set rest. clone_ok h0 q" by simp
  from Cons.IH [OF kids ext2 Cons.prems(3) this2 inv2 loop]
  obtain vals' where r: "g' ! this = JSONArray vals'"
    "list_all2 (\<lambda>q' q. copy_of h0 q g' q' (Suc this)) vals' ((done @ [val]) @ rest)"
    "length g2 \<le> length g'" "\<forall>b < length g2. b \<noteq> this \<longrightarrow> g' ! b = g2 ! b"
    by blast
  have "length g \<le> length g'" using r(3) len1 by (simp add: g2_def)
  moreover have "\<forall>b < length g. b \<noteq> this \<longrightarrow> g' ! b = g ! b"
    using r(4) len1 same1 by (auto simp add: g2_def)
  ultimately show ?case using r(1,2) by auto
qed


lemma std_map_subscript_append:
  "\<forall>k \<in> fst ` set acc. k < key \<Longrightarrow> snd (std_map_subscript acc key) = acc @ [(key, nullptr)]"
  by (induction acc) (auto split: prod.splits)

lemma std_map_store_append:
  "\<forall>k \<in> fst ` set acc. k < key \<Longrightarrow> std_map_store (acc @ [(key, v)]) key p = acc @ [(key, p)]"
  by (induction acc) auto

lemma JSONObject_store_append:
  assumes "this < length g" and "g ! this = JSONObject acc" and "\<forall>k \<in> fst ` set acc. k < key"
  shows "JSONObject_store g this key p = Inr (g[this := JSONObject (acc @ [(key, p)])])"
proof -
  obtain x where "std_map_subscript acc key = (x, acc @ [(key, nullptr)])"
    using std_map_subscript_append [OF assms(3)] by (cases "std_map_subscript acc key") simp
  then show ?thesis
    using assms(1,2) std_map_store_append [OF assms(3), of nullptr p]
    by (simp add: JSONObject_store_def deref_def)
qed

lemma JSONObject_copy_loop_ok:
  assumes "\<forall>pa \<in> set vals. clone_ok h0 (snd pa)"
    and "heap_extends h0 g" and "length h0 \<le> this" and "this < length g"
    and "g ! this = JSONObject acc"
    and "list_all2 (\<lambda>pa' pa. fst pa' = fst pa \<and> copy_of h0 (snd pa) g (snd pa') (Suc this)) acc done"
    and "keys_ascending (done @ vals)"
    and "JSONObject_copy_loop (clone n) this g vals = Some (Inr g')"
  shows "\<exists>vals'. g' ! this = JSONObject vals'
     \<and> list_all2 (\<lambda>pa' pa. fst pa' = fst pa \<and> copy_of h0 (snd pa) g' (snd pa') (Suc this))
          vals' (done @ vals)
     \<and> length g \<le> length g' \<and> (\<forall>b < length g. b \<noteq> this \<longrightarrow> g' ! b = g ! b)"
  using assms
proof (induction vals arbitrary: g acc "done")
  case Nil
  then show ?case by simp
next
  case (Cons pa rest)
  from Cons.prems(8) obtain p g1 where cl: "clone n g (snd pa) = Some (Inr (p, g1))"
    by (auto split: option.splits sum.splits)
  from Cons.prems(1) have "clone_ok h0 (snd pa)" by simp
  with cl Cons.prems(2) have p: "p = Ptr (length g)" and len1: "length g < length g1"
    and same1: "\<forall>b < length g. g1 ! b = g ! b" and cp: "copy_of h0 (snd pa) g1 p (length g)"
    unfolding clone_ok_def by blast+
  define g2 where "g2 = g1[this := JSONObject (acc @ [(fst pa, p)])]"
  have this1: "this < length g1" "g1 ! this = JSONObject acc"
    using Cons.prems(4,5) len1 same1 by auto
  have "map fst acc = map fst done"
    using Cons.prems(6) by (induction acc "done" rule: list_all2_induct) simp_all
  then have "fst ` set acc = fst ` set done" by (metis set_map)
  moreover have "\<forall>k \<in> fst ` set done. k < fst pa"
    using Cons.prems(7) by (auto simp add: keys_ascending_def sorted_wrt_append)
  ultimately have below: "\<forall>k \<in> fst ` set acc. k < fst pa" by simp
  have st: "JSONObject_store g1 this (fst pa) p = Inr g2"
    unfolding g2_def using this1 below by (rule JSONObject_store_append)
  with cl Cons.prems(8) have loop: "JSONObject_copy_loop (clone n) this g2 rest = Some (Inr g')"
    by simp
  have ext2: "heap_extends h0 g2"
    using Cons.prems(2,3) len1 same1 by (auto simp add: heap_extends_def g2_def)
  have this2: "this < length g2" "g2 ! this = JSONObject (acc @ [(fst pa, p)])"
    using this1 by (simp_all add: g2_def)
  have old: "list_all2 (\<lambda>pa' pa. fst pa' = fst pa \<and> copy_of h0 (snd pa) g2 (snd pa') (Suc this)) acc done"
  proof (rule list_all2_mono [OF Cons.prems(6)])
    fix pa' pb :: "string \<times> ptr"
    assume A: "fst pa' = fst pb \<and> copy_of h0 (snd pb) g (snd pa') (Suc this)"
    then have "copy_of h0 (snd pb) g (snd pa') (Suc this)" by simp
    then have "copy_of h0 (snd pb) g2 (snd pa') (Suc this)"
    proof (rule copy_of_frame)
      show "length g \<le> length g2" using len1 by (simp add: g2_def)
      show "\<forall>b. Suc this \<le> b \<and> b < length g \<longrightarrow> g2 ! b = g ! b"
        using same1 by (simp add: g2_def)
    qed
    with A show "fst pa' = fst pb \<and> copy_of h0 (snd pb) g2 (snd pa') (Suc this)" by simp
  qed
  have "copy_of h0 (snd pa) g1 p (Suc this)"
    using Cons.prems(4) by (intro copy_of_lower [OF cp]) simp
  then have new: "copy_of h0 (snd pa) g2 p (Suc this)"
    by (rule copy_of_frame) (auto simp add: g2_def)
  from old new have inv2: "list_all2 (\<lambda>pa' pa. fst pa' = fst pa \<and> copy_of h0 (snd pa) g2 (snd pa') (Suc this))
      (acc @ [(fst pa, p)]) (done @ [pa])"
    by (simp add: list_all2_appendI)
  from Cons.prems(1) have kids: "\<forall>pa \<in> set rest. clone_ok h0 (snd pa)" by simp
  from Cons.prems(7) have asc: "keys_ascending ((done @ [pa]) @ rest)" by simp
  from Cons.IH [OF kids ext2 Cons.prems(3) this2 inv2 asc loop]
  obtain vals' where r: "g' ! this = JSONObject vals'"
    "list_all2 (\<lambda>pa' pa. fst pa' = fst pa \<and> copy_of h0 (snd pa) g' (snd pa') (Suc this))
       vals' ((done @ [pa]) @ rest)"
    "length g2 \<le> length g'" "\<forall>b < length g2. b \<noteq> this \<longrightarrow> g' ! b = g2 ! b"
    by blast
  have "length g \<le> length g'" using r(3) len1 by (simp add: g2_def)
  moreover have "\<forall>b < length g. b \<noteq> this \<longrightarrow> g' ! b = g ! b"
    using r(4) len1 same1 by (auto simp add: g2_def)
  ultimately show ?case using r(1,2) by auto
qed


lemma list_all2_left: "list_all2 P xs ys \<Longrightarrow> x \<in> set xs \<Longrightarrow> \<exists>y. P x y"
  by (induction xs ys rule: list_all2_induct) auto

lemma to_string_leaf:
  "deref h2 p2 = Inr v \<Longrightarrow> deref h p = Inr v \<Longrightarrow> children v = []
   \<Longrightarrow> to_string m h2 p2 = to_string m h p"
  by (cases m; cases v) simp_all

lemma copy_of_leaf:
  assumes "a < length h0" and "children (h0 ! a) = []" and "map_invariant (h0 ! a)"
  shows "copy_of h0 (Ptr a) (h @ [h0 ! a]) (Ptr (length h)) (length h)"
proof -
  let ?h' = "h @ [h0 ! a]"
  have cell: "length h < length ?h'" "?h' ! length h = h0 ! a" by simp_all
  have "well_formed ?h' (Ptr (length h))"
    using cell assms(2,3) by (intro well_formed.node) simp_all
  moreover have "length h \<le> b" if "reach ?h' (Ptr (length h)) b" for b
    using that assms(2) by (cases rule: reach.cases) simp_all
  moreover have "to_string m ?h' (Ptr (length h)) = to_string m h0 (Ptr a)" for m
    using assms(1,2) by (intro to_string_leaf [of _ _ "h0 ! a"]) (simp_all add: deref_def)
  ultimately show ?thesis by (simp add: copy_of_def)
qed

lemma copy_of_array:
  assumes "this < length h'" and "h' ! this = JSONArray vals'"
    and "a < length h0" and "h0 ! a = JSONArray vals"
    and "list_all2 (\<lambda>q' q. copy_of h0 q h' q' (Suc this)) vals' vals"
  shows "copy_of h0 (Ptr a) h' (Ptr this) this"
proof -
  have kid: "\<exists>q. copy_of h0 q h' q' (Suc this)" if "q' \<in> set vals'" for q'
    using assms(5) that by (rule list_all2_left)
  have "well_formed h' (Ptr this)"
  proof (rule well_formed.node [OF assms(1)])
    show "map_invariant (h' ! this)" by (simp add: assms(2))
    show "\<forall>q \<in> set (children (h' ! this)). well_formed h' q"
      using kid by (auto simp add: assms(2) copy_of_def)
  qed
  moreover have "this \<le> b" if "reach h' (Ptr this) b" for b
    using that
  proof (cases rule: reach.cases)
    case self
    then show ?thesis by simp
  next
    case (child q')
    then have "q' \<in> set vals'" by (simp add: assms(2))
    with kid child(3) have "Suc this \<le> b" by (auto simp add: copy_of_def)
    then show ?thesis by simp
  qed
  moreover have "to_string m h' (Ptr this) = to_string m h0 (Ptr a)" for m
  proof (cases m)
    case 0
    then show ?thesis by simp
  next
    case (Suc m')
    have "list_all2 (\<lambda>q' q. to_string m' h' q' = to_string m' h0 q) vals' vals"
      by (rule list_all2_mono [OF assms(5)]) (simp add: copy_of_def)
    then have "JSONArray_to_string_loop (to_string m' h') ''['' vals'
        = JSONArray_to_string_loop (to_string m' h0) ''['' vals"
      by (rule JSONArray_to_string_loop_cong)
    then show ?thesis using assms(1-4) by (simp add: Suc deref_def)
  qed
  ultimately show ?thesis by (simp add: copy_of_def)
qed

lemma copy_of_object:
  assumes "this < length h'" and "h' ! this = JSONObject vals'"
    and "a < length h0" and "h0 ! a = JSONObject vals" and "keys_ascending vals"
    and "list_all2 (\<lambda>pa' pa. fst pa' = fst pa \<and> copy_of h0 (snd pa) h' (snd pa') (Suc this))
           vals' vals"
  shows "copy_of h0 (Ptr a) h' (Ptr this) this"
proof -
  have kid: "\<exists>q. copy_of h0 q h' q' (Suc this)" if "q' \<in> snd ` set vals'" for q'
  proof -
    from that obtain pa' where "pa' \<in> set vals'" "q' = snd pa'" by auto
    with list_all2_left [OF assms(6), of pa'] show ?thesis by auto
  qed
  have "map fst vals' = map fst vals"
    using assms(6) by (induction vals' vals rule: list_all2_induct) simp_all
  with assms(5) have asc: "keys_ascending vals'" by (simp add: keys_ascending_def)
  have "well_formed h' (Ptr this)"
  proof (rule well_formed.node [OF assms(1)])
    show "map_invariant (h' ! this)" by (simp add: assms(2) asc)
    show "\<forall>q \<in> set (children (h' ! this)). well_formed h' q"
      using kid by (auto simp add: assms(2) copy_of_def)
  qed
  moreover have "this \<le> b" if "reach h' (Ptr this) b" for b
    using that
  proof (cases rule: reach.cases)
    case self
    then show ?thesis by simp
  next
    case (child q')
    then have "q' \<in> snd ` set vals'" by (simp add: assms(2))
    with kid child(3) have "Suc this \<le> b" by (auto simp add: copy_of_def)
    then show ?thesis by simp
  qed
  moreover have "to_string m h' (Ptr this) = to_string m h0 (Ptr a)" for m
  proof (cases m)
    case 0
    then show ?thesis by simp
  next
    case (Suc m')
    have "list_all2 (\<lambda>pa' pa. fst pa' = fst pa \<and> to_string m' h' (snd pa') = to_string m' h0 (snd pa))
        vals' vals"
      by (rule list_all2_mono [OF assms(6)]) (simp add: copy_of_def)
    then have "JSONObject_to_string_loop (to_string m' h') ''{'' vals'
        = JSONObject_to_string_loop (to_string m' h0) ''{'' vals"
      by (rule JSONObject_to_string_loop_cong)
    then show ?thesis using assms(1-4) by (simp add: Suc deref_def)
  qed
  ultimately show ?thesis by (simp add: copy_of_def)
qed

lemma clone_leaf:
  assumes "a < length h0" and "heap_extends h0 h" and "children (h0 ! a) = []"
    and "map_invariant (h0 ! a)" and "p' = Ptr (length h)" and "h' = h @ [h0 ! a]"
  shows "p' = Ptr (length h) \<and> length h < length h' \<and> (\<forall>b < length h. h' ! b = h ! b)
        \<and> copy_of h0 (Ptr a) h' p' (length h)"
  using assms copy_of_leaf [of a h0 h] by (simp add: nth_append)

lemma well_formed_clone_ok:
  assumes "well_formed h0 p"
  shows "clone_ok h0 p"
  using assms
proof (induction rule: well_formed.induct)
  case (node a h0)
  show ?case unfolding clone_ok_def
  proof (intro allI impI)
    fix n h p' h'
    assume ext: "heap_extends h0 h" and cl: "clone n h (Ptr a) = Some (Inr (p', h'))"
    from cl obtain n' where n: "n = Suc n'" by (cases n) simp_all
    have d: "deref h (Ptr a) = Inr (h0 ! a)"
      using ext node.hyps(1) by (simp add: deref_def heap_extends_def)
    let ?new = "length h"
    show "p' = Ptr (length h) \<and> length h < length h' \<and> (\<forall>b < length h. h' ! b = h ! b)
        \<and> copy_of h0 (Ptr a) h' p' (length h)"
    proof (cases "h0 ! a")
      case JSONNullType
      with cl d n have "p' = Ptr (length h)" "h' = h @ [h0 ! a]" by (simp_all add: new_def)
      with node.hyps(1) ext show ?thesis by (intro clone_leaf) (simp_all add: JSONNullType)
    next
      case (JSONBooleanType val)
      with cl d n have "p' = Ptr (length h)" "h' = h @ [h0 ! a]" by (simp_all add: new_def)
      with node.hyps(1) ext show ?thesis by (intro clone_leaf) (simp_all add: JSONBooleanType)
    next
      case (JSONString val)
      with cl d n have "p' = Ptr (length h)" "h' = h @ [h0 ! a]" by (simp_all add: new_def)
      with node.hyps(1) ext show ?thesis by (intro clone_leaf) (simp_all add: JSONString)
    next
      case (JSONArray vals)
      let ?g = "h @ [JSONArray []]"
      from cl d n JSONArray have p': "p' = Ptr ?new"
        and loop: "JSONArray_copy_loop (clone n') ?new ?g vals = Some (Inr h')"
        by (auto simp add: new_def split: option.splits sum.splits)
      have kids: "\<forall>q \<in> set vals. clone_ok h0 q" using node.IH JSONArray by simp
      have extg: "heap_extends h0 ?g"
        using ext by (simp add: heap_extends_def nth_append)
      have le: "length h0 \<le> ?new" using ext by (simp add: heap_extends_def)
      have "\<exists>vals'. h' ! ?new = JSONArray vals'
         \<and> list_all2 (\<lambda>q' q. copy_of h0 q h' q' (Suc ?new)) vals' ([] @ vals)
         \<and> length ?g \<le> length h' \<and> (\<forall>b < length ?g. b \<noteq> ?new \<longrightarrow> h' ! b = ?g ! b)"
        using kids extg le _ _ _ loop by (rule JSONArray_copy_loop_ok) simp_all
      then obtain vals' where r: "h' ! ?new = JSONArray vals'"
        "list_all2 (\<lambda>q' q. copy_of h0 q h' q' (Suc ?new)) vals' vals"
        "length ?g \<le> length h'" "\<forall>b < length ?g. b \<noteq> ?new \<longrightarrow> h' ! b = ?g ! b"
        by auto
      have lt: "?new < length h'" using r(3) by simp
      have "\<forall>b < length h. h' ! b = h ! b" using r(4) by (simp add: nth_append)
      moreover have "copy_of h0 (Ptr a) h' (Ptr ?new) ?new"
        using lt r(1) node.hyps(1) JSONArray r(2) by (rule copy_of_array)
      ultimately show ?thesis using p' lt by simp
    next
      case (JSONObject vals)
      let ?g = "h @ [JSONObject []]"
      from cl d n JSONObject have p': "p' = Ptr ?new"
        and loop: "JSONObject_copy_loop (clone n') ?new ?g vals = Some (Inr h')"
        by (auto simp add: new_def split: option.splits sum.splits)
      have kids: "\<forall>pa \<in> set vals. clone_ok h0 (snd pa)" using node.IH JSONObject by simp
      have asc: "keys_ascending vals" using node.hyps(2) JSONObject by simp
      have extg: "heap_extends h0 ?g"
        using ext by (simp add: heap_extends_def nth_append)
      have le: "length h0 \<le> ?new" using ext by (simp add: heap_extends_def)
      have "\<exists>vals'. h' ! ?new = JSONObject vals'
         \<and> list_all2 (\<lambda>pa' pa. fst pa' = fst pa \<and> copy_of h0 (snd pa) h' (snd pa') (Suc ?new))
              vals' ([] @ vals)
         \<and> length ?g \<le> length h' \<and> (\<forall>b < length ?g. b \<noteq> ?new \<longrightarrow> h' ! b = ?g ! b)"
        using kids extg le _ _ _ _ loop by (rule JSONObject_copy_loop_ok) (simp_all add: asc)
      then obtain vals' where r: "h' ! ?new = JSONObject vals'"
        "list_all2 (\<lambda>pa' pa. fst pa' = fst pa \<and> copy_of h0 (snd pa) h' (snd pa') (Suc ?new))
           vals' vals"
        "length ?g \<le> length h'" "\<forall>b < length ?g. b \<noteq> ?new \<longrightarrow> h' ! b = ?g ! b"
        by auto
      have lt: "?new < length h'" using r(3) by simp
      have "\<forall>b < length h. h' ! b = h ! b" using r(4) by (simp add: nth_append)
      moreover have "copy_of h0 (Ptr a) h' (Ptr ?new) ?new"
        using lt r(1) node.hyps(1) JSONObject asc r(2) by (rule copy_of_object)
      ultimately show ?thesis using p' lt by simp
    qed
  qed
qed


lemma common_bound:
  "\<forall>x \<in> set xs. \<exists>N. \<forall>n \<ge> N. P x n \<Longrightarrow> \<exists>N. \<forall>x \<in> set xs. \<forall>n \<ge> N. P x (n::nat)"
proof (induction xs)
  case Nil
  show ?case by simp
next
  case (Cons x xs)
  then obtain N1 N2 where "\<forall>n \<ge> N1. P x n" "\<forall>x \<in> set xs. \<forall>n \<ge> N2. P x n"
    by auto
  then have "\<forall>y \<in> set (x # xs). \<forall>n \<ge> max N1 N2. P y n" by auto
  then show ?case by blast
qed

lemma JSONArray_to_string_loop_total:
  "\<forall>q \<in> set vals. f q \<noteq> None \<Longrightarrow> JSONArray_to_string_loop f out vals \<noteq> None"
  by (induction vals arbitrary: out) (auto split: option.splits sum.splits)

lemma JSONObject_to_string_loop_total:
  "\<forall>pa \<in> set vals. f (snd pa) \<noteq> None \<Longrightarrow> JSONObject_to_string_loop f out vals \<noteq> None"
  by (induction vals arbitrary: out) (auto split: option.splits sum.splits)

lemma erase_append_total: "\<exists>r. erase_append out closing = Some r"
  by (simp add: erase_append_def split: sum.splits)

lemma to_string_step_total:
  assumes "\<And>v q. deref h p = Inr v \<Longrightarrow> q \<in> set (children v) \<Longrightarrow> to_string m h q \<noteq> None"
  shows "to_string (Suc m) h p \<noteq> None"
proof (cases "deref h p")
  case (Inl e)
  then show ?thesis by simp
next
  case (Inr v)
  show ?thesis
  proof (cases v)
    case (JSONArray vals)
    have "JSONArray_to_string_loop (to_string m h) ''['' vals \<noteq> None"
      using assms [OF Inr] JSONArray by (intro JSONArray_to_string_loop_total) simp
    then show ?thesis using Inr JSONArray
      by (auto simp add: erase_append_total split: option.splits sum.splits)
  next
    case (JSONObject vals)
    have "JSONObject_to_string_loop (to_string m h) ''{'' vals \<noteq> None"
      using assms [OF Inr] JSONObject by (intro JSONObject_to_string_loop_total) simp
    then show ?thesis using Inr JSONObject
      by (auto simp add: erase_append_total split: option.splits sum.splits)
  qed (use Inr in simp_all)
qed

lemma to_string_returns:
  assumes "well_formed h p"
  shows "\<exists>N. \<forall>m \<ge> N. to_string m h p \<noteq> None"
  using assms
proof (induction rule: well_formed.induct)
  case (node a h)
  then have "\<forall>q \<in> set (children (h ! a)). \<exists>N. \<forall>m \<ge> N. to_string m h q \<noteq> None"
    by simp
  then obtain N where N: "\<forall>q \<in> set (children (h ! a)). \<forall>m \<ge> N. to_string m h q \<noteq> None"
    using common_bound [of "children (h ! a)" "\<lambda>q m. to_string m h q \<noteq> None"] by blast
  have "to_string m h (Ptr a) \<noteq> None" if "m \<ge> Suc N" for m
  proof -
    from that obtain m' where m: "m = Suc m'" "m' \<ge> N" by (cases m) simp_all
    have "to_string m' h q \<noteq> None" if "deref h (Ptr a) = Inr v" "q \<in> set (children v)" for v q
      using that N m(2) node.hyps(1) by (simp add: deref_def)
    then show ?thesis unfolding m(1) by (rule to_string_step_total)
  qed
  then show ?case by blast
qed

lemma JSONArray_to_string_loop_mono:
  "\<forall>q r. f q = Some r \<longrightarrow> g q = Some r \<Longrightarrow> JSONArray_to_string_loop f out vals = Some r
   \<Longrightarrow> JSONArray_to_string_loop g out vals = Some r"
  by (induction vals arbitrary: out) (auto split: option.splits sum.splits)

lemma JSONObject_to_string_loop_mono:
  "\<forall>q r. f q = Some r \<longrightarrow> g q = Some r \<Longrightarrow> JSONObject_to_string_loop f out vals = Some r
   \<Longrightarrow> JSONObject_to_string_loop g out vals = Some r"
  by (induction vals arbitrary: out) (auto split: option.splits sum.splits)

lemma to_string_Suc: "to_string m h p = Some r \<Longrightarrow> to_string (Suc m) h p = Some r"
proof (induction m arbitrary: p r)
  case 0
  then show ?case by simp
next
  case (Suc m)
  have step: "\<forall>q r. to_string m h q = Some r \<longrightarrow> to_string (Suc m) h q = Some r"
    using Suc.IH by blast
  show ?case
  proof (cases "deref h p")
    case (Inl e)
    with Suc.prems show ?thesis by simp
  next
    case (Inr v)
    show ?thesis
    proof (cases v)
      case (JSONArray vals)
      show ?thesis
      proof (cases "JSONArray_to_string_loop (to_string m h) ''['' vals")
        case None
        with Suc.prems Inr JSONArray show ?thesis by simp
      next
        case (Some x)
        from Suc.prems Inr JSONArray Some
        have "(case x of Inl e \<Rightarrow> Some (Inl e) | Inr out \<Rightarrow> erase_append out '']'') = Some r"
          by simp
        moreover have "JSONArray_to_string_loop (to_string (Suc m) h) ''['' vals = Some x"
          using step Some by (rule JSONArray_to_string_loop_mono)
        ultimately show ?thesis using Inr JSONArray
          by (subst to_string.simps(2)) (simp del: to_string.simps)
      qed
    next
      case (JSONObject vals)
      show ?thesis
      proof (cases "JSONObject_to_string_loop (to_string m h) ''{'' vals")
        case None
        with Suc.prems Inr JSONObject show ?thesis by simp
      next
        case (Some x)
        from Suc.prems Inr JSONObject Some
        have "(case x of Inl e \<Rightarrow> Some (Inl e) | Inr out \<Rightarrow> erase_append out ''}'') = Some r"
          by simp
        moreover have "JSONObject_to_string_loop (to_string (Suc m) h) ''{'' vals = Some x"
          using step Some by (rule JSONObject_to_string_loop_mono)
        ultimately show ?thesis using Inr JSONObject
          by (subst to_string.simps(2)) (simp del: to_string.simps)
      qed
    qed (use Suc.prems Inr in simp_all)
  qed
qed

lemma to_string_add: "to_string m h p = Some r \<Longrightarrow> to_string (m + k) h p = Some r"
  by (induction k) (simp_all add: to_string_Suc del: to_string.simps)

lemma to_string_more_fuel: "to_string m h p = Some r \<Longrightarrow> m \<le> m' \<Longrightarrow> to_string m' h p = Some r"
  using to_string_add [of m h p r "m' - m"] by simp

lemma to_string_outcome:
  assumes "well_formed h p"
  shows "\<exists>N r. \<forall>m \<ge> N. to_string m h p = Some r"
proof -
  from to_string_returns [OF assms] obtain N where "\<forall>m \<ge> N. to_string m h p \<noteq> None" by blast
  then obtain r where "to_string N h p = Some r" by auto
  then have "\<forall>m \<ge> N. to_string m h p = Some r" by (blast intro: to_string_more_fuel)
  then show ?thesis by blast
qed


lemma JSONArray_copy_loop_total:
  assumes "\<forall>q \<in> set vals. clone_ok h0 q
      \<and> (\<forall>h. heap_extends h0 h \<longrightarrow> (\<exists>r. clone n h q = Some (Inr r)))"
    and "heap_extends h0 g" and "length h0 \<le> this" and "this < length g"
    and "\<exists>acc. g ! this = JSONArray acc"
  shows "\<exists>g'. JSONArray_copy_loop (clone n) this g vals = Some (Inr g')"
  using assms
proof (induction vals arbitrary: g)
  case Nil
  show ?case by simp
next
  case (Cons val rest)
  from Cons.prems(1,2) obtain p g1 where cl: "clone n g val = Some (Inr (p, g1))"
    by fastforce
  from Cons.prems(1) have "clone_ok h0 val" by simp
  with cl Cons.prems(2) have len1: "length g < length g1"
    and same1: "\<forall>b < length g. g1 ! b = g ! b"
    unfolding clone_ok_def by blast+
  from Cons.prems(5) obtain acc where acc: "g ! this = JSONArray acc" by blast
  define g2 where "g2 = g1[this := JSONArray (acc @ [p])]"
  have this1: "this < length g1" "g1 ! this = JSONArray acc"
    using Cons.prems(4) acc len1 same1 by auto
  then have pb: "push_back g1 this p = Inr g2"
    by (simp add: push_back_def deref_def g2_def)
  have ext2: "heap_extends h0 g2"
    using Cons.prems(2,3) len1 same1 by (auto simp add: heap_extends_def g2_def)
  have this2: "this < length g2" "\<exists>acc. g2 ! this = JSONArray acc"
    using this1 by (simp_all add: g2_def)
  from Cons.prems(1) have kids: "\<forall>q \<in> set rest. clone_ok h0 q
      \<and> (\<forall>h. heap_extends h0 h \<longrightarrow> (\<exists>r. clone n h q = Some (Inr r)))"
    by simp
  from Cons.IH [OF kids ext2 Cons.prems(3) this2]
  show ?case using cl pb by simp
qed

lemma JSONObject_copy_loop_total:
  assumes "\<forall>pa \<in> set vals. clone_ok h0 (snd pa)
      \<and> (\<forall>h. heap_extends h0 h \<longrightarrow> (\<exists>r. clone n h (snd pa) = Some (Inr r)))"
    and "heap_extends h0 g" and "length h0 \<le> this" and "this < length g"
    and "\<exists>acc. g ! this = JSONObject acc"
  shows "\<exists>g'. JSONObject_copy_loop (clone n) this g vals = Some (Inr g')"
  using assms
proof (induction vals arbitrary: g)
  case Nil
  show ?case by simp
next
  case (Cons pa rest)
  from Cons.prems(1,2) obtain p g1 where cl: "clone n g (snd pa) = Some (Inr (p, g1))"
    by fastforce
  from Cons.prems(1) have "clone_ok h0 (snd pa)" by simp
  with cl Cons.prems(2) have len1: "length g < length g1"
    and same1: "\<forall>b < length g. g1 ! b = g ! b"
    unfolding clone_ok_def by blast+
  from Cons.prems(5) obtain acc where acc: "g ! this = JSONObject acc" by blast
  have this1: "this < length g1" "g1 ! this = JSONObject acc"
    using Cons.prems(4) acc len1 same1 by auto
  have "JSONObject_store g1 this (fst pa) p
      = Inr (g1[this := JSONObject (std_map_store (snd (std_map_subscript acc (fst pa))) (fst pa) p)])"
    using this1 by (simp add: JSONObject_store_def deref_def split: prod.splits)
  then obtain acc' where st: "JSONObject_store g1 this (fst pa) p = Inr (g1[this := JSONObject acc'])"
    by blast
  define g2 where "g2 = g1[this := JSONObject acc']"
  have ext2: "heap_extends h0 g2"
    using Cons.prems(2,3) len1 same1 by (auto simp add: heap_extends_def g2_def)
  have this2: "this < length g2" "\<exists>acc. g2 ! this = JSONObject acc"
    using this1 by (simp_all add: g2_def)
  from Cons.prems(1) have kids: "\<forall>pa \<in> set rest. clone_ok h0 (snd pa)
      \<and> (\<forall>h. heap_extends h0 h \<longrightarrow> (\<exists>r. clone n h (snd pa) = Some (Inr r)))"
    by simp
  from Cons.IH [OF kids ext2 Cons.prems(3) this2]
  show ?case using cl st by (simp add: g2_def)
qed

lemma well_formed_clone_returns:
  assumes "well_formed h0 p"
  shows "\<exists>N. \<forall>n \<ge> N. \<forall>h. heap_extends h0 h \<longrightarrow> (\<exists>r. clone n h p = Some (Inr r))"
  using assms
proof (induction rule: well_formed.induct)
  case (node a h0)
  let ?P = "\<lambda>q n. \<forall>h. heap_extends h0 h \<longrightarrow> (\<exists>r. clone n h q = Some (Inr r))"
  from node.IH have "\<forall>q \<in> set (children (h0 ! a)). \<exists>N. \<forall>n \<ge> N. ?P q n" by simp
  then obtain N where N: "\<forall>q \<in> set (children (h0 ! a)). \<forall>n \<ge> N. ?P q n"
    using common_bound [of "children (h0 ! a)" ?P] by blast
  from node.IH have ok: "\<forall>q \<in> set (children (h0 ! a)). clone_ok h0 q"
    by (simp add: well_formed_clone_ok)
  have "\<exists>r. clone n h (Ptr a) = Some (Inr r)" if n: "n \<ge> Suc N" and ext: "heap_extends h0 h" for n h
  proof -
    from n obtain n' where n': "n = Suc n'" "n' \<ge> N" by (cases n) simp_all
    have d: "deref h (Ptr a) = Inr (h0 ! a)"
      using ext node.hyps(1) by (simp add: deref_def heap_extends_def)
    have extg: "heap_extends h0 (h @ [v])" for v
      using ext by (simp add: heap_extends_def nth_append)
    have le: "length h0 \<le> length h" using ext by (simp add: heap_extends_def)
    show ?thesis
    proof (cases "h0 ! a")
      case (JSONArray vals)
      have "\<exists>g'. JSONArray_copy_loop (clone n') (length h) (h @ [JSONArray []]) vals = Some (Inr g')"
        using _ extg le by (rule JSONArray_copy_loop_total) (use N ok n'(2) JSONArray in simp_all)
      then show ?thesis using d JSONArray by (auto simp add: n'(1) new_def)
    next
      case (JSONObject vals)
      have "\<exists>g'. JSONObject_copy_loop (clone n') (length h) (h @ [JSONObject []]) vals = Some (Inr g')"
        using _ extg le by (rule JSONObject_copy_loop_total) (use N ok n'(2) JSONObject in simp_all)
      then show ?thesis using d JSONObject by (auto simp add: n'(1) new_def)
    qed (simp_all add: d n'(1) new_def)
  qed
  then show ?case by blast
qed

lemma heap_extends_refl: "heap_extends h h"
  by (simp add: heap_extends_def)

text \<open>
  Claim C2. For every well-formed value, of any variant, \<^verbatim>\<open>clone\<close> returns, and
  \<^verbatim>\<open>to_string\<close> on the clone has the outcome it has on the original, which it does
  have: the same text, or the same exception. The clone is well formed and shares no
  cell with the original; the original serialises after the call as before it, and
  still does after any cell of the clone's tree is overwritten with anything.
\<close>

theorem clone_deep_copy:
  assumes "well_formed h p"
  shows "(\<exists>n p' h'. clone n h p = Some (Inr (p', h')))
    \<and> (\<exists>N r. \<forall>m \<ge> N. to_string m h p = Some r)
    \<and> (\<forall>n p' h'. clone n h p = Some (Inr (p', h')) \<longrightarrow>
          well_formed h' p'
        \<and> (\<forall>m. to_string m h' p' = to_string m h p)
        \<and> (\<forall>m. to_string m h' p = to_string m h p)
        \<and> (\<forall>a. reach h' p' a \<longrightarrow> \<not> reach h' p a)
        \<and> (\<forall>a v m. reach h' p' a \<longrightarrow> to_string m (h'[a := v]) p = to_string m h p))"
proof (intro conjI allI impI)
  from well_formed_clone_returns [OF assms]
  obtain N where "\<forall>n \<ge> N. \<forall>g. heap_extends h g \<longrightarrow> (\<exists>r. clone n g p = Some (Inr r))"
    by blast
  then have "\<exists>r. clone N h p = Some (Inr r)" by (simp add: heap_extends_refl)
  then show "\<exists>n p' h'. clone n h p = Some (Inr (p', h'))" by auto
next
  show "\<exists>N r. \<forall>m \<ge> N. to_string m h p = Some r"
    using assms by (rule to_string_outcome)
next
  fix n p' h'
  assume cl: "clone n h p = Some (Inr (p', h'))"
  have "clone_ok h p" using assms by (rule well_formed_clone_ok)
  with cl have len: "length h < length h'" and same: "\<forall>b < length h. h' ! b = h ! b"
    and cp: "copy_of h p h' p' (length h)"
    unfolding clone_ok_def using heap_extends_refl by blast+
  from cp show "well_formed h' p'" by (simp add: copy_of_def)
  from cp show "to_string m h' p' = to_string m h p" for m by (simp add: copy_of_def)
  have below: "b < length h" if "reach h p b" for b using that by (rule reach_bound)
  have fr: "well_formed g p \<and> (\<forall>m. to_string m g p = to_string m h p)
        \<and> (\<forall>b. reach g p b \<longrightarrow> reach h p b)"
    if "length h \<le> length g" "\<forall>b < length h. g ! b = h ! b" for g
  proof (rule frame [OF assms], intro allI impI)
    fix b assume "reach h p b"
    then have "b < length h" by (rule below)
    with that show "b < length g \<and> g ! b = h ! b" by simp
  qed
  from fr [of h'] len same show "to_string m h' p = to_string m h p" for m by simp
  fix a
  assume r: "reach h' p' a"
  with cp have a: "length h \<le> a" by (simp add: copy_of_def)
  show "\<not> reach h' p a"
  proof
    assume "reach h' p a"
    with fr [of h'] len same have "reach h p a" by simp
    with below a show False by fastforce
  qed
  show "to_string m (h'[a := v]) p = to_string m h p" for v m
    using fr [of "h'[a := v]"] len same a by simp
qed


theorem clone_deep_copy_witness:
  "well_formed nested_heap (Ptr 3)
   \<and> clone 3 nested_heap (Ptr 3) = Some (Inr (Ptr 4, cloned_heap))
   \<and> to_string 3 nested_heap (Ptr 3) = Some (Inr ''{\"x\"[true, nul}'')
   \<and> to_string 3 cloned_heap (Ptr 4) = Some (Inr ''{\"x\"[true, nul}'')
   \<and> reach cloned_heap (Ptr 4) 6
   \<and> to_string 3 (cloned_heap[6 := JSONBooleanType False]) (Ptr 4)
       = Some (Inr ''{\"x\"[false, nul}'')
   \<and> to_string 3 (cloned_heap[6 := JSONBooleanType False]) (Ptr 3)
       = Some (Inr ''{\"x\"[true, nul}'')"
proof -
  have wf0: "well_formed nested_heap (Ptr 0)" and wf1: "well_formed nested_heap (Ptr 1)"
    by (rule well_formed.node; simp add: nested_heap_def)+
  have wf2: "well_formed nested_heap (Ptr 2)"
    using wf0 wf1 by (intro well_formed.node) (simp_all add: nested_heap_def)
  have wf: "well_formed nested_heap (Ptr 3)"
    using wf2 by (intro well_formed.node) (simp_all add: nested_heap_def keys_ascending_def)
  have cl: "clone 3 nested_heap (Ptr 3) = Some (Inr (Ptr 4, cloned_heap))"
    by (simp add: numeral_3_eq_3 nested_heap_def cloned_heap_def deref_def new_def push_back_def
        JSONObject_store_def)
  have "reach cloned_heap (Ptr 6) 6"
    by (rule reach.self) (simp add: cloned_heap_def nested_heap_def)
  then have "reach cloned_heap (Ptr 5) 6"
    by (rule reach.child [rotated 2]) (simp_all add: cloned_heap_def nested_heap_def)
  then have r: "reach cloned_heap (Ptr 4) 6"
    by (rule reach.child [rotated 2]) (simp_all add: cloned_heap_def nested_heap_def)
  have t: "to_string 3 nested_heap (Ptr 3) = Some (Inr ''{\"x\"[true, nul}'')"
    by (simp add: numeral_3_eq_3 nested_heap_def deref_def erase_append_def string_erase_def
        size_t_minus_def JSONString_to_string_def escape_str_def escape_buffer_def c_str_def)
  have m: "to_string 3 (cloned_heap[6 := JSONBooleanType False]) (Ptr 4)
       = Some (Inr ''{\"x\"[false, nul}'')"
    by (simp add: numeral_3_eq_3 nested_heap_def cloned_heap_def deref_def erase_append_def
        string_erase_def size_t_minus_def JSONString_to_string_def escape_str_def
        escape_buffer_def c_str_def)
  from clone_deep_copy [OF wf] cl r
  have "to_string 3 cloned_heap (Ptr 4) = to_string 3 nested_heap (Ptr 3)"
    and "to_string 3 (cloned_heap[6 := JSONBooleanType False]) (Ptr 3)
      = to_string 3 nested_heap (Ptr 3)"
    by blast+
  with wf cl r t m show ?thesis by simp
qed

end
